theory Spec2Isabelle
  imports Main
begin

section \<open>The undo/redo transaction log\<close>

text \<open>
  A shallow embedding of the undo module (the second document of
  \<^verbatim>\<open>src/unnamed/part_000\<close>): the module-level variables \<^verbatim>\<open>MESSAGE_HISTORY\<close> and
  \<^verbatim>\<open>CURSOR\<close> become a state record that every function takes and returns, a read
  of an entry beyond the end of the array (on which the source then reads a property of
  \<^verbatim>\<open>undefined\<close>) becomes the error value \<open>TypeError\<close>, and what \<^verbatim>\<open>undo\<close> and
  \<^verbatim>\<open>redo\<close> hand to \<^verbatim>\<open>applyUndoAction\<close> is returned next to the new state.
\<close>

subsection \<open>Data\<close>

text \<open>
  The values a message or a marker's \<^verbatim>\<open>meta\<close> carries. The log only copies them; amounts
  are whole numbers, so a number is an \<open>int\<close>.
\<close>

datatype jsval = JUndefined | JNull | JBool bool | JNum int | JStr string

text \<open>
  \<^verbatim>\<open>Message\<close> of the sync module: dataset, row, column, value and timestamp. The field
  \<^verbatim>\<open>value\<close> is called \<open>msg_value\<close> here. A timestamp is the reading of the clock at
  which it was issued.
\<close>

record Message =
  dataset :: string
  row :: string
  column :: string
  msg_value :: jsval
  timestamp :: nat

text \<open>
  \<^verbatim>\<open>oldData\<close>: for each dataset, for each row touched, the row object as it was before
  the batch, a row object being its columns with their values.
\<close>

type_synonym row_item = "(string \<times> jsval) list"
type_synonym old_data = "(string \<times> (string \<times> row_item) list) list"

text \<open>
  \<^verbatim>\<open>MarkerMessage | MessagesMessage\<close>. A marker carries \<^verbatim>\<open>meta\<close> (\<open>JUndefined\<close> when the
  literal has none); a batch carries \<^verbatim>\<open>messages\<close>, \<^verbatim>\<open>oldData\<close> and \<^verbatim>\<open>undoTag\<close>
  (\<open>None\<close> when the context has no tag), and no \<^verbatim>\<open>meta\<close>.
\<close>

datatype entry =
  Marker jsval
| Messages "Message list" old_data "string option"

fun is_marker :: "entry \<Rightarrow> bool" where
  "is_marker (Marker _) = True"
| "is_marker (Messages _ _ _) = False"

fun is_messages :: "entry \<Rightarrow> bool" where
  "is_messages (Marker _) = False"
| "is_messages (Messages _ _ _) = True"

fun entry_meta :: "entry \<Rightarrow> jsval" where
  "entry_meta (Marker meta) = meta"
| "entry_meta (Messages _ _ _) = JUndefined"

fun entry_messages :: "entry \<Rightarrow> Message list" where
  "entry_messages (Marker _) = []"
| "entry_messages (Messages ms _ _) = ms"

fun entry_oldData :: "entry \<Rightarrow> old_data" where
  "entry_oldData (Marker _) = []"
| "entry_oldData (Messages _ old _) = old"

fun entry_undoTag :: "entry \<Rightarrow> string option" where
  "entry_undoTag (Marker _) = None"
| "entry_undoTag (Messages _ _ tag) = tag"

text \<open>
  The module state. \<open>clock\<close> is the counter behind \<^verbatim>\<open>Timestamp.send()\<close>, which the
  module calls but does not own.
\<close>

record undo_state =
  MESSAGE_HISTORY :: "entry list"
  CURSOR :: nat
  clock :: nat

definition HISTORY_SIZE :: nat where
  "HISTORY_SIZE = 20"

definition initial_state :: undo_state where
  "initial_state = \<lparr>MESSAGE_HISTORY = [Marker JUndefined], CURSOR = 0, clock = 0\<rparr>"

text \<open>
  The mutator context that \<^verbatim>\<open>getMutatorContext()\<close> returns; the module \<^verbatim>\<open>./mutators\<close> is
  not part of the sources, so every function that reads the context takes it as an
  argument. A flag the context object lacks is falsy, hence \<open>False\<close>.
\<close>

record mutator_context =
  undoListening :: bool
  undoDisabled :: bool
  undoTag :: "string option"

datatype error = TypeError

text \<open>
  \<^verbatim>\<open>UndoState\<close>, the payload of the \<^verbatim>\<open>undo-event\<close>, together with the list that
  \<^verbatim>\<open>applyUndoAction\<close> passes to \<^verbatim>\<open>sendMessages\<close>.
\<close>

record undo_action =
  sent :: "Message list"
  ev_messages :: "Message list"
  ev_tables :: "string list"
  ev_meta :: jsval
  ev_undoTag :: "string option"

subsection \<open>Helpers the module imports\<close>

text \<open>
  Modelled from the spec: \<^verbatim>\<open>getIn\<close> of \<^verbatim>\<open>../shared/util\<close> is not part of the sources.
  The snapshot maps a dataset and a row to the row's columns, and \<^verbatim>\<open>getIn(oldData,
  [dataset, row])\<close> is the row object, or nothing when the dataset or the row is absent.
\<close>

definition getIn :: "old_data \<Rightarrow> string \<Rightarrow> string \<Rightarrow> row_item option" where
  "getIn oldData d r = (case map_of oldData d of None \<Rightarrow> None | Some t \<Rightarrow> map_of t r)"

text \<open>The property read \<^verbatim>\<open>oldItem[column]\<close>: \<^verbatim>\<open>undefined\<close> for a column the row lacks.\<close>

definition get_prop :: "row_item \<Rightarrow> string \<Rightarrow> jsval" where
  "get_prop item c = (case map_of item c of None \<Rightarrow> JUndefined | Some v \<Rightarrow> v)"

text \<open>
  Modelled from the spec: \<^verbatim>\<open>Timestamp.send()\<close> of the clock service is not part of the
  sources. It is monotonic per process: each call advances the clock and returns the new
  reading.
\<close>

definition Timestamp_send :: "nat \<Rightarrow> nat \<times> nat" where
  "Timestamp_send clk = (Suc clk, Suc clk)"

text \<open>\<^verbatim>\<open>String.prototype.split\<close> with a one-character separator.\<close>

fun split_on :: "char \<Rightarrow> string \<Rightarrow> string list" where
  "split_on c [] = [[]]"
| "split_on c (x # xs) =
     (if x = c then [] # split_on c xs
      else (case split_on c xs of
              [] \<Rightarrow> [[x]]
            | w # ws \<Rightarrow> (x # w) # ws))"

subsection \<open>Recording\<close>

text \<open>
  \<^verbatim>\<open>trimHistory\<close>. \<^verbatim>\<open>indexOf\<close> compares objects by identity, and every entry of the
  log is an object of its own (each one is pushed or assigned as a fresh literal), so
  the index it finds for \<^verbatim>\<open>slice[0]\<close> is the position that marker was filtered from:
  the markers are paired with their positions. \<^verbatim>\<open>slice(-HISTORY_SIZE)\<close> of a longer
  list drops all but the last \<open>HISTORY_SIZE\<close>; were the slice empty, \<^verbatim>\<open>indexOf\<close> would
  return -1 and \<^verbatim>\<open>slice(-1)\<close> keep the last entry.
\<close>

definition trimHistory :: "undo_state \<Rightarrow> undo_state" where
  "trimHistory s =
     (let h = take (CURSOR s + 1) (MESSAGE_HISTORY s);
          markers = filter (\<lambda>(i, item). is_marker item) (enumerate 0 h)
      in if length markers > HISTORY_SIZE then
           (let slice = drop (length markers - HISTORY_SIZE) markers;
                h' = (case slice of
                        [] \<Rightarrow> drop (length h - 1) h
                      | (cutoff, _) # _ \<Rightarrow> drop cutoff h)
            in s\<lparr>MESSAGE_HISTORY := h', CURSOR := length h' - 1\<rparr>)
         else s\<lparr>MESSAGE_HISTORY := h\<rparr>)"

definition appendMessages ::
  "mutator_context \<Rightarrow> Message list \<Rightarrow> old_data \<Rightarrow> undo_state \<Rightarrow> undo_state" where
  "appendMessages context messages oldData s =
     (if undoListening context \<and> length messages > 0 then
        (let s1 = trimHistory s
         in s1\<lparr>MESSAGE_HISTORY :=
                 MESSAGE_HISTORY s1 @ [Messages messages oldData (undoTag context)],
               CURSOR := CURSOR s1 + 1\<rparr>)
      else s)"

definition clearUndo :: "undo_state \<Rightarrow> undo_state" where
  "clearUndo s = s\<lparr>MESSAGE_HISTORY := [Marker JUndefined], CURSOR := 0\<rparr>"

text \<open>
  \<^verbatim>\<open>withUndo\<close>, up to the call of \<^verbatim>\<open>func\<close>: the new state and the context \<^verbatim>\<open>func\<close>
  runs under (\<^verbatim>\<open>withMutatorContext\<close> merges its overrides onto the current context).
  Reading \<^verbatim>\<open>.type\<close> of the last entry of an empty array is a \<open>TypeError\<close>.
\<close>

definition withUndo ::
  "mutator_context \<Rightarrow> jsval \<Rightarrow> undo_state \<Rightarrow> error + (undo_state \<times> mutator_context)" where
  "withUndo context meta s =
     (if undoDisabled context \<or> undoListening context then Inr (s, context)
      else
        (let h = take (CURSOR s + 1) (MESSAGE_HISTORY s);
             marker = Marker meta
         in if h = [] then Inl TypeError
            else
              (let s' = (if is_marker (h ! (length h - 1))
                         then s\<lparr>MESSAGE_HISTORY := h[length h - 1 := marker]\<rparr>
                         else s\<lparr>MESSAGE_HISTORY := h @ [marker], CURSOR := CURSOR s + 1\<rparr>)
               in Inr (s', context\<lparr>undoListening := True, undoTag := undoTag context\<rparr>))))"

subsection \<open>Inverse derivation\<close>

definition undoMessage :: "Message \<Rightarrow> old_data \<Rightarrow> Message option" where
  "undoMessage message oldData =
     (case getIn oldData (dataset message) (row message) of
        Some oldItem \<Rightarrow>
          (let column = (if dataset message = ''spreadsheet_cells''
                         then ''cachedValue'' else column message)
           in Some (message\<lparr>msg_value := get_prop oldItem column\<rparr>))
      | None \<Rightarrow>
          (if dataset message = ''spreadsheet_cells'' then
             (if column message = ''expr'' then Some (message\<lparr>msg_value := JNull\<rparr>)
              else Some message)
           else if dataset message \<noteq> ''category_mapping'' \<and>
                   dataset message \<noteq> ''payee_mapping'' then
             (if dataset message = ''zero_budget_months'' \<or>
                 dataset message = ''zero_budgets'' \<or>
                 dataset message = ''reflect_budgets'' then
                (if column message \<in> set [''buffered'', ''amount'', ''carryover'']
                 then Some (message\<lparr>msg_value := JNum 0\<rparr>)
                 else None)
              else if dataset message = ''notes'' then Some (message\<lparr>msg_value := JNull\<rparr>)
              else Some (message\<lparr>column := ''tombstone'', msg_value := JNum 1\<rparr>))
           else None))"

text \<open>
  \<^verbatim>\<open>redoResurrections\<close>. The \<^verbatim>\<open>Set\<close> keeps its keys in insertion order, the first
  occurrence of each; each key is then split at the dots and the first two parts taken
  as table and row (\<open>resurrection_message\<close> is the callback of that \<^verbatim>\<open>map\<close>). A key
  always holds a dot, so the split has two parts at least; the remaining cases of the
  destructuring leave the missing part empty.
\<close>

definition non_resurrectable :: "string list" where
  "non_resurrectable =
     [''zero_budget_months'', ''zero_budgets'', ''reflect_budgets'', ''notes'',
      ''category_mapping'', ''payee_mapping'']"

fun resurrect_keys :: "Message list \<Rightarrow> old_data \<Rightarrow> string list \<Rightarrow> string list" where
  "resurrect_keys [] oldData resurrect = resurrect"
| "resurrect_keys (message # messages) oldData resurrect =
     resurrect_keys messages oldData
       (if getIn oldData (dataset message) (row message) = None \<and>
           dataset message \<notin> set non_resurrectable
        then (let key = dataset message @ ''.'' @ row message
              in if key \<in> set resurrect then resurrect else resurrect @ [key])
        else resurrect)"

definition resurrection_message :: "string \<Rightarrow> nat \<Rightarrow> Message" where
  "resurrection_message desc ts =
     (let parts = split_on CHR ''.'' desc;
          table = (case parts of [] \<Rightarrow> [] | t # _ \<Rightarrow> t);
          r = (case parts of _ # r # _ \<Rightarrow> r | _ \<Rightarrow> [])
      in \<lparr>dataset = table, row = r, column = ''tombstone'',
           msg_value = JNum 0, timestamp = ts\<rparr>)"

fun resurrection_messages :: "string list \<Rightarrow> nat \<Rightarrow> Message list \<times> nat" where
  "resurrection_messages [] clk = ([], clk)"
| "resurrection_messages (desc # descs) clk =
     (let (ts, clk1) = Timestamp_send clk;
          (rest, clk2) = resurrection_messages descs clk1
      in (resurrection_message desc ts # rest, clk2))"

definition redoResurrections :: "Message list \<Rightarrow> old_data \<Rightarrow> nat \<Rightarrow> Message list \<times> nat" where
  "redoResurrections messages oldData clk =
     resurrection_messages (resurrect_keys messages oldData []) clk"

subsection \<open>Undo and redo\<close>

text \<open>The \<^verbatim>\<open>map\<close> of \<^verbatim>\<open>applyUndoAction\<close>: a fresh timestamp for each message, in order.\<close>

fun stamp_messages :: "Message list \<Rightarrow> nat \<Rightarrow> Message list \<times> nat" where
  "stamp_messages [] clk = ([], clk)"
| "stamp_messages (msg # msgs) clk =
     (let (ts, clk1) = Timestamp_send clk;
          (rest, clk2) = stamp_messages msgs clk1
      in (msg\<lparr>timestamp := ts\<rparr> # rest, clk2))"

text \<open>The \<^verbatim>\<open>reduce\<close> that collects the datasets, each once, in order of first occurrence.\<close>

fun collect_tables :: "Message list \<Rightarrow> string list \<Rightarrow> string list" where
  "collect_tables [] acc = acc"
| "collect_tables (message # messages) acc =
     collect_tables messages
       (if dataset message \<in> set acc then acc else acc @ [dataset message])"

text \<open>
  \<^verbatim>\<open>applyUndoAction\<close>: the messages are sent with fresh timestamps under a context
  that is not listening, and the event carries the messages as they were passed in.
\<close>

definition applyUndoAction ::
  "Message list \<Rightarrow> jsval \<Rightarrow> string option \<Rightarrow> undo_state \<Rightarrow> undo_state \<times> undo_action" where
  "applyUndoAction messages meta tag s =
     (let (stamped, clk) = stamp_messages messages (clock s)
      in (s\<lparr>clock := clk\<rparr>,
          \<lparr>sent = stamped, ev_messages = messages,
           ev_tables = collect_tables messages [],
           ev_meta = meta, ev_undoTag = tag\<rparr>))"

text \<open>The loop of \<^verbatim>\<open>undo\<close> that walks back to the nearest marker.\<close>

fun walk_back :: "entry list \<Rightarrow> nat \<Rightarrow> error + nat" where
  "walk_back h 0 = Inr 0"
| "walk_back h (Suc c) =
     (if Suc c < length h then
        (if \<not> is_marker (h ! Suc c) then walk_back h c else Inr (Suc c))
      else Inl TypeError)"

text \<open>The \<^verbatim>\<open>reduce\<close> of \<^verbatim>\<open>undo\<close>, before the \<^verbatim>\<open>reverse\<close>.\<close>

fun undo_reduce :: "entry list \<Rightarrow> Message list \<Rightarrow> Message list" where
  "undo_reduce [] acc = acc"
| "undo_reduce (e # entries) acc =
     undo_reduce entries
       (acc @ List.map_filter (\<lambda>message. undoMessage message (entry_oldData e))
                (entry_messages e))"

definition undo :: "undo_state \<Rightarrow> error + (undo_state \<times> undo_action option)" where
  "undo s =
     (let end = CURSOR s;
          h = MESSAGE_HISTORY s
      in case walk_back h (max (CURSOR s - 1) 0) of
           Inl e \<Rightarrow> Inl e
         | Inr c \<Rightarrow>
             if \<not> c < length h then Inl TypeError
             else
               (let meta = entry_meta (h ! c);
                    start = max c 0;
                    entries = filter is_messages (drop start (take (end + 1) h));
                    s1 = s\<lparr>CURSOR := c\<rparr>
                in case entries of
                     [] \<Rightarrow> Inr (s1, None)
                   | e0 # _ \<Rightarrow>
                       (let toApply = rev (undo_reduce entries []);
                            (s2, a) = applyUndoAction toApply meta (entry_undoTag e0) s1
                        in Inr (s2, Some a))))"

text \<open>The loop of \<^verbatim>\<open>redo\<close> that walks forward to the nearest marker.\<close>

function walk_forward :: "entry list \<Rightarrow> nat \<Rightarrow> nat" where
  "walk_forward h c =
     (if Suc c < length h \<and> \<not> is_marker (h ! c) then walk_forward h (Suc c) else c)"
  by pat_completeness auto
termination
  by (relation "measure (\<lambda>(h, c). length h - c)") auto

declare walk_forward.simps [simp del]

text \<open>The \<^verbatim>\<open>reduce\<close> of \<^verbatim>\<open>redo\<close>; the resurrections draw their timestamps as they are built.\<close>

fun redo_reduce :: "entry list \<Rightarrow> Message list \<Rightarrow> nat \<Rightarrow> Message list \<times> nat" where
  "redo_reduce [] acc clk = (acc, clk)"
| "redo_reduce (e # entries) acc clk =
     (let (res, clk1) = redoResurrections (entry_messages e) (entry_oldData e) clk
      in redo_reduce entries ((acc @ entry_messages e) @ res) clk1)"

definition redo :: "undo_state \<Rightarrow> error + (undo_state \<times> undo_action option)" where
  "redo s =
     (let h = MESSAGE_HISTORY s
      in if \<not> CURSOR s < length h then Inl TypeError
         else
           (let meta = (if is_marker (h ! CURSOR s) then entry_meta (h ! CURSOR s) else JNull);
                start = CURSOR s;
                end = walk_forward h (min (CURSOR s + 1) (length h - 1));
                entries = filter is_messages (drop (start + 1) (take (end + 1) h));
                s1 = s\<lparr>CURSOR := end\<rparr>
            in if length entries > 0 then
                 (let (toApply, clk) = redo_reduce entries [] (clock s1);
                      (s2, a) = applyUndoAction toApply meta
                                  (entry_undoTag (entries ! (length entries - 1)))
                                  (s1\<lparr>clock := clk\<rparr>)
                  in Inr (s2, Some a))
               else Inr (s1, None)))"

subsection \<open>Sequences of calls\<close>

text \<open>
  A transaction as a caller runs it: \<^verbatim>\<open>withUndo(func, meta)\<close> where \<^verbatim>\<open>func\<close> makes the
  calls of \<^verbatim>\<open>appendMessages\<close> listed in \<open>batches\<close>, each under the context that
  \<^verbatim>\<open>withUndo\<close> set up.
\<close>

type_synonym batch = "Message list \<times> old_data"
type_synonym transaction = "mutator_context \<times> jsval \<times> batch list"

definition run_transaction ::
  "mutator_context \<Rightarrow> jsval \<Rightarrow> batch list \<Rightarrow> undo_state \<Rightarrow> error + undo_state" where
  "run_transaction context meta batches s =
     (case withUndo context meta s of
        Inl e \<Rightarrow> Inl e
      | Inr (s1, context1) \<Rightarrow>
          Inr (fold (\<lambda>(messages, oldData). appendMessages context1 messages oldData)
                 batches s1))"

fun run_transactions :: "transaction list \<Rightarrow> undo_state \<Rightarrow> error + undo_state" where
  "run_transactions [] s = Inr s"
| "run_transactions ((context, meta, batches) # ts) s =
     (case run_transaction context meta batches s of
        Inl e \<Rightarrow> Inl e
      | Inr s' \<Rightarrow> run_transactions ts s')"

fun undo_times :: "nat \<Rightarrow> undo_state \<Rightarrow> error + undo_state" where
  "undo_times 0 s = Inr s"
| "undo_times (Suc n) s =
     (case undo s of
        Inl e \<Rightarrow> Inl e
      | Inr (s', _) \<Rightarrow> undo_times n s')"

text \<open>
  A transaction that records: its context is neither listening nor disabled, and one of
  its batches at least has a message.
\<close>

definition recording_transaction :: "transaction \<Rightarrow> bool" where
  "recording_transaction t =
     (case t of (context, meta, batches) \<Rightarrow>
        \<not> undoListening context \<and> \<not> undoDisabled context \<and>
        list_ex (\<lambda>(messages, oldData). messages \<noteq> []) batches)"

text \<open>
  The calls a client of the module can make, and the states they lead to from the initial
  log. A call that raises ends the run.
\<close>

datatype call =
  WithUndo mutator_context jsval
| AppendMessages mutator_context "Message list" old_data
| Undo
| Redo
| ClearUndo

fun step :: "call \<Rightarrow> undo_state \<Rightarrow> error + undo_state" where
  "step (WithUndo context meta) s =
     (case withUndo context meta s of Inl e \<Rightarrow> Inl e | Inr (s', _) \<Rightarrow> Inr s')"
| "step (AppendMessages context messages oldData) s =
     Inr (appendMessages context messages oldData s)"
| "step Undo s = (case undo s of Inl e \<Rightarrow> Inl e | Inr (s', _) \<Rightarrow> Inr s')"
| "step Redo s = (case redo s of Inl e \<Rightarrow> Inl e | Inr (s', _) \<Rightarrow> Inr s')"
| "step ClearUndo s = Inr (clearUndo s)"

fun run :: "call list \<Rightarrow> undo_state \<Rightarrow> error + undo_state" where
  "run [] s = Inr s"
| "run (c # cs) s = (case step c s of Inl e \<Rightarrow> Inl e | Inr s' \<Rightarrow> run cs s')"

subsection \<open>Notions the properties are stated with\<close>

text \<open>The number of markers of a log, and of its part before the cursor.\<close>

definition count_markers :: "entry list \<Rightarrow> nat" where
  "count_markers h = length (filter is_marker h)"

definition markers_before :: "undo_state \<Rightarrow> nat" where
  "markers_before s = count_markers (take (CURSOR s) (MESSAGE_HISTORY s))"

definition markers_upto :: "undo_state \<Rightarrow> nat" where
  "markers_upto s = count_markers (take (CURSOR s + 1) (MESSAGE_HISTORY s))"

text \<open>A log in shape: it starts with a marker and the cursor points into it.\<close>

definition well_formed :: "undo_state \<Rightarrow> bool" where
  "well_formed s =
     (case MESSAGE_HISTORY s of
        [] \<Rightarrow> False
      | e # _ \<Rightarrow> is_marker e \<and> CURSOR s < length (MESSAGE_HISTORY s))"

text \<open>What a message writes, its timestamp apart.\<close>

definition op_of :: "Message \<Rightarrow> string \<times> string \<times> string \<times> jsval" where
  "op_of m = (dataset m, row m, column m, msg_value m)"

text \<open>The elements of a list without repetition, each at its first occurrence.\<close>

fun first_occurrences :: "'a list \<Rightarrow> 'a list" where
  "first_occurrences [] = []"
| "first_occurrences (x # xs) = x # removeAll x (first_occurrences xs)"

text \<open>The messages of a batch whose row \<^verbatim>\<open>redo\<close> resurrects.\<close>

definition resurrectable :: "old_data \<Rightarrow> Message \<Rightarrow> bool" where
  "resurrectable oldData m =
     (getIn oldData (dataset m) (row m) = None \<and> dataset m \<notin> set non_resurrectable)"

text \<open>A batch none of whose dataset and row names holds a dot.\<close>

definition dot_free :: "entry \<Rightarrow> bool" where
  "dot_free e =
     list_all (\<lambda>m. CHR ''.'' \<notin> set (dataset m) \<and> CHR ''.'' \<notin> set (row m))
       (entry_messages e)"

text \<open>
  The tombstone-clears of a batch, timestamps apart: one for each pair of dataset and row
  among its resurrectable messages, at the pair's first occurrence.
\<close>

definition tombstone_clears :: "entry \<Rightarrow> (string \<times> string \<times> string \<times> jsval) list" where
  "tombstone_clears e =
     map (\<lambda>(d, r). (d, r, ''tombstone'', JNum 0))
       (first_occurrences
          (map (\<lambda>m. (dataset m, row m))
             (filter (resurrectable (entry_oldData e)) (entry_messages e))))"

text \<open>The pairs of a message with the snapshot of its batch, in order of recording.\<close>

definition recorded_operations :: "entry list \<Rightarrow> (Message \<times> old_data) list" where
  "recorded_operations entries =
     concat (map (\<lambda>e. map (\<lambda>m. (m, entry_oldData e)) (entry_messages e)) entries)"

text \<open>
  The bound the log keeps on its markers: \<open>HISTORY_SIZE\<close> of them, and one more only
  while the last entry is a marker.
\<close>

definition marker_bound :: "entry list \<Rightarrow> bool" where
  "marker_bound h =
     (count_markers h \<le> HISTORY_SIZE \<or>
      count_markers h = HISTORY_SIZE + 1 \<and> h \<noteq> [] \<and> is_marker (h ! (length h - 1)))"

subsection \<open>Example values\<close>

text \<open>Contexts, messages and logs on which the properties below are exercised.\<close>

definition plain_context :: mutator_context where
  "plain_context = \<lparr>undoListening = False, undoDisabled = False, undoTag = Some ''tag''\<rparr>"

definition listening_context :: mutator_context where
  "listening_context = \<lparr>undoListening = True, undoDisabled = False, undoTag = Some ''tag''\<rparr>"

definition disabled_listening_context :: mutator_context where
  "disabled_listening_context =
     \<lparr>undoListening = True, undoDisabled = True, undoTag = Some ''tag''\<rparr>"

definition amount_500 :: Message where
  "amount_500 = \<lparr>dataset = ''transactions'', row = ''r1'', column = ''amount'',
                  msg_value = JNum 500, timestamp = 1\<rparr>"

definition amount_was_300 :: old_data where
  "amount_was_300 = [(''transactions'', [(''r1'', [(''amount'', JNum 300)])])]"

definition cell_value_5 :: Message where
  "cell_value_5 = \<lparr>dataset = ''spreadsheet_cells'', row = ''sheet!cell'',
                    column = ''cachedValue'', msg_value = JNum 5, timestamp = 1\<rparr>"

definition one_transaction_log :: undo_state where
  "one_transaction_log =
     \<lparr>MESSAGE_HISTORY = [Marker JNull, Messages [amount_500] amount_was_300 (Some ''tag'')],
      CURSOR = 1, clock = 0\<rparr>"

definition undone_log :: undo_state where
  "undone_log = one_transaction_log\<lparr>CURSOR := 0\<rparr>"


definition payee_r2 :: Message where
  "payee_r2 = \<lparr>dataset = ''payees'', row = ''r2'', column = ''name'',
                msg_value = JStr ''x'', timestamp = 1\<rparr>"

definition mapping_r2 :: Message where
  "mapping_r2 = \<lparr>dataset = ''payee_mapping'', row = ''r2'', column = ''targetId'',
                  msg_value = JStr ''r2'', timestamp = 2\<rparr>"

definition payee_r3 :: Message where
  "payee_r3 = \<lparr>dataset = ''payees'', row = ''r3'', column = ''name'',
                msg_value = JStr ''y'', timestamp = 3\<rparr>"

definition two_batch_log :: undo_state where
  "two_batch_log =
     \<lparr>MESSAGE_HISTORY =
        [Marker JNull,
         Messages [payee_r2, mapping_r2] [] (Some ''tag''),
         Messages [payee_r3] [] (Some ''tag'')],
      CURSOR = 2, clock = 0\<rparr>"

text \<open>
  Two sequences of calls: a transaction that records two batches, and twenty recording
  transactions followed by the start of one more.
\<close>

definition two_batch_calls :: "call list" where
  "two_batch_calls =
     [WithUndo plain_context JNull,
      AppendMessages listening_context [payee_r2, mapping_r2] [],
      AppendMessages listening_context [payee_r3] []]"

definition twenty_one_calls :: "call list" where
  "twenty_one_calls =
     concat (replicate 20 [WithUndo plain_context JNull,
                           AppendMessages listening_context [payee_r2] []]) @
     [WithUndo plain_context JNull]"

text \<open>More transactions than the log keeps markers: twenty-five, each recording a batch.\<close>

definition many_transactions :: "transaction list" where
  "many_transactions =
     replicate 25 (plain_context, JStr ''payee'', [([payee_r2, mapping_r2], []), ([], [])])"

text \<open>
  The log of the two batches with the cursor back on its marker, and what \<^verbatim>\<open>redo\<close>
  submits from there.
\<close>

definition two_batch_log_undone :: undo_state where
  "two_batch_log_undone = two_batch_log\<lparr>CURSOR := 0\<rparr>"

definition two_batch_redo_ops :: "(string \<times> string \<times> string \<times> jsval) list" where
  "two_batch_redo_ops =
     [(''payees'', ''r2'', ''name'', JStr ''x''),
      (''payee_mapping'', ''r2'', ''targetId'', JStr ''r2''),
      (''payees'', ''r2'', ''tombstone'', JNum 0),
      (''payees'', ''r3'', ''name'', JStr ''y''),
      (''payees'', ''r3'', ''tombstone'', JNum 0)]"

section \<open>Properties\<close>

subsection \<open>The cursor walks\<close>

lemma walk_back_bound: "c < length h \<Longrightarrow> \<exists>j. walk_back h c = Inr j \<and> j \<le> c"
proof (induction c)
  case 0
  then show ?case by simp
next
  case (Suc c)
  then obtain j where "walk_back h c = Inr j" "j \<le> c" by auto
  with Suc.prems show ?case by auto
qed

lemma walk_forward_bound: "c < length h \<Longrightarrow> walk_forward h c < length h"
proof (induction h c rule: walk_forward.induct)
  case (1 h c)
  show ?case
  proof (cases "Suc c < length h \<and> \<not> is_marker (h ! c)")
    case True
    then have "walk_forward h (Suc c) < length h" using 1 by simp
    with True show ?thesis by (subst walk_forward.simps) simp
  next
    case False
    then have "walk_forward h c = c" by (subst walk_forward.simps) auto
    with 1 show ?thesis by simp
  qed
qed

lemma walk_forward_ge: "c \<le> walk_forward h c"
proof (induction h c rule: walk_forward.induct)
  case (1 h c)
  show ?case
  proof (cases "Suc c < length h \<and> \<not> is_marker (h ! c)")
    case True
    then have "Suc c \<le> walk_forward h (Suc c)" using 1 by simp
    with True show ?thesis by (subst walk_forward.simps) simp
  next
    case False
    then have "walk_forward h c = c" by (subst walk_forward.simps) auto
    then show ?thesis by simp
  qed
qed

lemma walk_forward_last: "walk_forward h (length h - Suc 0) = length h - Suc 0"
  by (subst walk_forward.simps) auto

subsection \<open>Undo and redo leave the log as it is\<close>

lemma applyUndoAction_history:
  "applyUndoAction ms meta tag s = (s', a) \<Longrightarrow>
     MESSAGE_HISTORY s' = MESSAGE_HISTORY s \<and> CURSOR s' = CURSOR s"
  by (auto simp: applyUndoAction_def split: prod.splits)

lemma undo_history:
  "undo s = Inr (s', a) \<Longrightarrow> MESSAGE_HISTORY s' = MESSAGE_HISTORY s"
  by (auto simp: undo_def Let_def split: sum.splits if_splits list.splits prod.splits
           dest!: applyUndoAction_history)

lemma redo_history:
  "redo s = Inr (s', a) \<Longrightarrow> MESSAGE_HISTORY s' = MESSAGE_HISTORY s"
  by (auto simp: redo_def Let_def split: sum.splits if_splits list.splits prod.splits
           dest!: applyUndoAction_history)

lemma undo_total:
  assumes "CURSOR s < length (MESSAGE_HISTORY s)"
  shows "\<exists>s' a. undo s = Inr (s', a)"
proof -
  from assms have "CURSOR s - 1 < length (MESSAGE_HISTORY s)" by simp
  from walk_back_bound [OF this]
  obtain j where j: "walk_back (MESSAGE_HISTORY s) (CURSOR s - 1) = Inr j" "j \<le> CURSOR s - 1"
    by blast
  with assms have "j < length (MESSAGE_HISTORY s)" by simp
  with j show ?thesis
    by (auto simp: undo_def Let_def split: list.splits prod.splits)
qed

lemma redo_total:
  assumes "CURSOR s < length (MESSAGE_HISTORY s)"
  shows "\<exists>s' a. redo s = Inr (s', a)"
  using assms by (auto simp: redo_def Let_def split: prod.splits)

text \<open>
  C10: \<^verbatim>\<open>undo\<close> and \<^verbatim>\<open>redo\<close> change the cursor (and draw timestamps) only: whenever
  one of them returns, the entries of the log are those it started with, whether or not a
  batch was collected, so nothing is trimmed; and with the cursor inside the log both do
  return.
\<close>

theorem undo_redo_keep_the_log:
  "(\<forall>s' a. undo s = Inr (s', a) \<longrightarrow> MESSAGE_HISTORY s' = MESSAGE_HISTORY s) \<and>
   (\<forall>s' a. redo s = Inr (s', a) \<longrightarrow> MESSAGE_HISTORY s' = MESSAGE_HISTORY s) \<and>
   (CURSOR s < length (MESSAGE_HISTORY s) \<longrightarrow>
      (\<exists>s' a. undo s = Inr (s', a)) \<and> (\<exists>s' a. redo s = Inr (s', a)))"
  using undo_history redo_history undo_total redo_total by blast

theorem undo_redo_keep_the_log_witness:
  "CURSOR one_transaction_log < length (MESSAGE_HISTORY one_transaction_log) \<and>
   (\<exists>s' a. undo one_transaction_log = Inr (s', a) \<and>
            MESSAGE_HISTORY s' = MESSAGE_HISTORY one_transaction_log) \<and>
   (\<exists>s' a. redo one_transaction_log = Inr (s', a) \<and>
            MESSAGE_HISTORY s' = MESSAGE_HISTORY one_transaction_log)"
proof -
  have c: "CURSOR one_transaction_log < length (MESSAGE_HISTORY one_transaction_log)"
    by (simp add: one_transaction_log_def)
  with undo_redo_keep_the_log [of one_transaction_log] show ?thesis by blast
qed

subsection \<open>A new transaction drops the redo branch\<close>

lemma take_Suc_last_marker:
  assumes "c < length h"
  shows "(take (c + 1) h)[length (take (c + 1) h) - 1 := e] = take c h @ [e]"
  using assms by (simp add: take_Suc_conv_app_nth list_update_append)

lemma redo_at_end:
  assumes "MESSAGE_HISTORY s \<noteq> []" "CURSOR s = length (MESSAGE_HISTORY s) - 1"
  shows "redo s = Inr (s, None)"
proof -
  have "min (CURSOR s + 1) (length (MESSAGE_HISTORY s) - 1) = length (MESSAGE_HISTORY s) - 1"
    using assms by simp
  then show ?thesis
    using assms by (simp add: redo_def Let_def walk_forward_last)
qed

text \<open>
  C8: with the cursor before the last entry, \<^verbatim>\<open>withUndo\<close> under a context that is
  neither listening nor disabled keeps of the log only the entries up to the cursor (the
  entry at the cursor replaced by the new marker when it is a marker, the new marker
  pushed after it otherwise), leaves the cursor on the last entry, and a \<^verbatim>\<open>redo\<close>
  right after collects nothing, submits nothing and changes nothing.
\<close>

theorem new_transaction_discards_redo:
  assumes "CURSOR s + 1 < length (MESSAGE_HISTORY s)"
    and "\<not> undoListening context" and "\<not> undoDisabled context"
  shows "\<exists>s' context'. withUndo context meta s = Inr (s', context') \<and>
           MESSAGE_HISTORY s' =
             (if is_marker (MESSAGE_HISTORY s ! CURSOR s)
              then take (CURSOR s) (MESSAGE_HISTORY s) @ [Marker meta]
              else take (CURSOR s + 1) (MESSAGE_HISTORY s) @ [Marker meta]) \<and>
           CURSOR s' = length (MESSAGE_HISTORY s') - 1 \<and>
           redo s' = Inr (s', None)"
proof -
  let ?h = "MESSAGE_HISTORY s" and ?c = "CURSOR s"
  let ?t = "take (?c + 1) ?h"
  from assms(1) have c: "?c < length ?h" by simp
  then have len: "length ?t = ?c + 1" by simp
  then have ne: "?t \<noteq> []" by auto
  have last: "?t ! (length ?t - 1) = ?h ! ?c" using c by simp
  show ?thesis
  proof (cases "is_marker (?h ! ?c)")
    case True
    let ?s' = "s\<lparr>MESSAGE_HISTORY := take ?c ?h @ [Marker meta]\<rparr>"
    have w: "withUndo context meta s =
               Inr (?s', context\<lparr>undoListening := True, undoTag := undoTag context\<rparr>)"
      using assms(2,3) ne True last take_Suc_last_marker [OF c, of "Marker meta"]
      by (simp add: withUndo_def Let_def del: take_Suc_conv_app_nth)
    have cur: "CURSOR ?s' = length (MESSAGE_HISTORY ?s') - 1" using c by simp
    have "redo ?s' = Inr (?s', None)" by (rule redo_at_end) (use cur in auto)
    with w cur True show ?thesis by auto
  next
    case False
    let ?s' = "s\<lparr>MESSAGE_HISTORY := ?t @ [Marker meta], CURSOR := ?c + 1\<rparr>"
    have w: "withUndo context meta s =
               Inr (?s', context\<lparr>undoListening := True, undoTag := undoTag context\<rparr>)"
      using assms(2,3) ne False last
      by (simp add: withUndo_def Let_def)
    have cur: "CURSOR ?s' = length (MESSAGE_HISTORY ?s') - 1" using c by simp
    have "redo ?s' = Inr (?s', None)" by (rule redo_at_end) (use cur in auto)
    with w cur False show ?thesis by auto
  qed
qed

theorem new_transaction_discards_redo_witness:
  "CURSOR undone_log + 1 < length (MESSAGE_HISTORY undone_log) \<and>
   \<not> undoListening plain_context \<and> \<not> undoDisabled plain_context \<and>
   (\<exists>s' context'. withUndo plain_context (JStr ''new'') undone_log = Inr (s', context') \<and>
      MESSAGE_HISTORY s' = [Marker (JStr ''new'')] \<and> CURSOR s' = 0 \<and>
      redo s' = Inr (s', None))"
proof -
  have h: "CURSOR undone_log + 1 < length (MESSAGE_HISTORY undone_log)"
    "\<not> undoListening plain_context" "\<not> undoDisabled plain_context"
    by (simp_all add: undone_log_def one_transaction_log_def plain_context_def)
  from new_transaction_discards_redo [OF h, of "JStr ''new''"] show ?thesis
    using h by (auto simp: undone_log_def one_transaction_log_def)
qed

subsection \<open>Recording is gated by the listening flag\<close>

text \<open>
  C7, as stated, fails: \<^verbatim>\<open>appendMessages\<close> reads \<^verbatim>\<open>undoListening\<close> only, so under a
  context that is disabled and listening at once a non-empty batch is recorded.
\<close>

theorem appendMessages_disabled_counterexample:
  "undoDisabled disabled_listening_context \<and>
   appendMessages disabled_listening_context [amount_500] amount_was_300 initial_state =
     \<lparr>MESSAGE_HISTORY = [Marker JUndefined, Messages [amount_500] amount_was_300 (Some ''tag'')],
      CURSOR = 1, clock = 0\<rparr> \<and>
   appendMessages disabled_listening_context [amount_500] amount_was_300 initial_state
     \<noteq> initial_state"
  by (simp add: appendMessages_def trimHistory_def disabled_listening_context_def
        initial_state_def HISTORY_SIZE_def enumerate_eq_zip)

text \<open>
  C7, amended: under every context that is not listening, whatever its disabled flag, and
  for every messages and snapshot, \<^verbatim>\<open>appendMessages\<close> leaves the log, the cursor and the
  clock as they are.
\<close>

theorem appendMessages_not_listening:
  "\<not> undoListening context \<Longrightarrow> appendMessages context messages oldData s = s"
  by (simp add: appendMessages_def)

theorem appendMessages_not_listening_witness:
  "\<not> undoListening (plain_context\<lparr>undoDisabled := True\<rparr>) \<and>
   appendMessages (plain_context\<lparr>undoDisabled := True\<rparr>) [amount_500] amount_was_300
     initial_state = initial_state"
proof -
  have h: "\<not> undoListening (plain_context\<lparr>undoDisabled := True\<rparr>)"
    by (simp add: plain_context_def)
  from appendMessages_not_listening [OF h] h show ?thesis by simp
qed

subsection \<open>The inverse of a message\<close>

text \<open>
  C9, as stated, fails: for a created row of \<^verbatim>\<open>spreadsheet_cells\<close> and a column other
  than \<^verbatim>\<open>expr\<close> the inverse is the recorded message itself, value included.
\<close>

theorem spreadsheet_creation_replays_counterexample:
  "dataset cell_value_5 = ''spreadsheet_cells'' \<and>
   getIn [] (dataset cell_value_5) (row cell_value_5) = None \<and>
   undoMessage cell_value_5 [] = Some cell_value_5 \<and>
   msg_value cell_value_5 = JNum 5"
  by (simp add: cell_value_5_def getIn_def undoMessage_def)

text \<open>
  C9, amended: for a message on \<^verbatim>\<open>spreadsheet_cells\<close> whose row has no prior value, the
  inverse is the message with value null when its column is \<^verbatim>\<open>expr\<close>, and the message
  unchanged for any other column; dataset, row and column are never changed, so no
  tombstone is set in its place.
\<close>

theorem spreadsheet_creation_inverse:
  assumes "dataset message = ''spreadsheet_cells''"
    and "getIn oldData (dataset message) (row message) = None"
  shows "undoMessage message oldData =
           Some (if column message = ''expr'' then message\<lparr>msg_value := JNull\<rparr> else message)"
  using assms by (simp add: undoMessage_def)

theorem spreadsheet_creation_inverse_witness:
  "dataset (cell_value_5\<lparr>column := ''expr''\<rparr>) = ''spreadsheet_cells'' \<and>
   getIn [] (dataset (cell_value_5\<lparr>column := ''expr''\<rparr>)) (row (cell_value_5\<lparr>column := ''expr''\<rparr>)) = None \<and>
   undoMessage (cell_value_5\<lparr>column := ''expr''\<rparr>) [] =
     Some (cell_value_5\<lparr>column := ''expr'', msg_value := JNull\<rparr>)"
proof -
  have h: "dataset (cell_value_5\<lparr>column := ''expr''\<rparr>) = ''spreadsheet_cells''"
    "getIn [] (dataset (cell_value_5\<lparr>column := ''expr''\<rparr>))
       (row (cell_value_5\<lparr>column := ''expr''\<rparr>)) = None"
    by (simp_all add: cell_value_5_def getIn_def)
  from spreadsheet_creation_inverse [OF h] h show ?thesis by simp
qed

text \<open>
  C2: when the snapshot has the row and the row has a value for the column (for
  \<^verbatim>\<open>spreadsheet_cells\<close>: for \<^verbatim>\<open>cachedValue\<close>), the inverse is the message with that
  value in place of its own: same dataset, row and column. And recording amount 500 over
  a prior amount of 300, then \<^verbatim>\<open>undo\<close>, submits column \<^verbatim>\<open>amount\<close> with value 300.
\<close>

theorem inverse_restores_prior_value:
  "(getIn oldData (dataset message) (row message) = Some oldItem \<and>
    map_of oldItem (if dataset message = ''spreadsheet_cells'' then ''cachedValue''
                    else column message) = Some v \<longrightarrow>
      undoMessage message oldData = Some (message\<lparr>msg_value := v\<rparr>)) \<and>
   (\<exists>s s' a. run_transaction plain_context JNull [([amount_500], amount_was_300)]
                initial_state = Inr s \<and>
              undo s = Inr (s', Some a) \<and>
              map op_of (sent a) = [(''transactions'', ''r1'', ''amount'', JNum 300)])"
proof (intro conjI impI)
  assume "getIn oldData (dataset message) (row message) = Some oldItem \<and>
    map_of oldItem (if dataset message = ''spreadsheet_cells'' then ''cachedValue''
                    else column message) = Some v"
  then show "undoMessage message oldData = Some (message\<lparr>msg_value := v\<rparr>)"
    by (auto simp: undoMessage_def get_prop_def)
next
  have r: "run_transaction plain_context JNull [([amount_500], amount_was_300)] initial_state =
          Inr one_transaction_log"
    by (simp add: run_transaction_def withUndo_def appendMessages_def trimHistory_def
          plain_context_def initial_state_def one_transaction_log_def HISTORY_SIZE_def
          enumerate_eq_zip)
  have u: "undo one_transaction_log =
          Inr (one_transaction_log\<lparr>CURSOR := 0, clock := 1\<rparr>,
               Some \<lparr>sent = [amount_500\<lparr>msg_value := JNum 300, timestamp := 1\<rparr>],
                     ev_messages = [amount_500\<lparr>msg_value := JNum 300\<rparr>],
                     ev_tables = [''transactions''],
                     ev_meta = JNull, ev_undoTag = Some ''tag''\<rparr>)"
    by (simp add: undo_def one_transaction_log_def applyUndoAction_def undoMessage_def
          getIn_def get_prop_def amount_500_def amount_was_300_def Timestamp_send_def
          List.map_filter_simps)
  have "map op_of [amount_500\<lparr>msg_value := JNum 300, timestamp := 1\<rparr>] =
          [(''transactions'', ''r1'', ''amount'', JNum 300)]"
    by (simp add: op_of_def amount_500_def)
  with r u show "\<exists>s s' a. run_transaction plain_context JNull [([amount_500], amount_was_300)]
                initial_state = Inr s \<and>
              undo s = Inr (s', Some a) \<and>
              map op_of (sent a) = [(''transactions'', ''r1'', ''amount'', JNum 300)]"
    by simp
qed

theorem inverse_restores_prior_value_witness:
  "getIn amount_was_300 (dataset amount_500) (row amount_500) = Some [(''amount'', JNum 300)] \<and>
   map_of [(''amount'', JNum 300)] (column amount_500) = Some (JNum 300) \<and>
   undoMessage amount_500 amount_was_300 = Some (amount_500\<lparr>msg_value := JNum 300\<rparr>)"
proof -
  have g: "getIn amount_was_300 (dataset amount_500) (row amount_500) =
             Some [(''amount'', JNum 300)]"
    by (simp add: getIn_def amount_was_300_def amount_500_def)
  have c: "map_of [(''amount'', JNum 300)]
             (if dataset amount_500 = ''spreadsheet_cells'' then ''cachedValue''
              else column amount_500) = Some (JNum 300)"
    by (simp add: amount_500_def)
  from inverse_restores_prior_value
         [of amount_was_300 amount_500 "[(''amount'', JNum 300)]" "JNum 300"] g c
  have "undoMessage amount_500 amount_was_300 = Some (amount_500\<lparr>msg_value := JNum 300\<rparr>)"
    by blast
  with g c show ?thesis by (simp add: amount_500_def)
qed

subsection \<open>What undo submits\<close>

lemma stamp_messages_ops:
  "map op_of (fst (stamp_messages ms clk)) = map op_of ms"
proof (induction ms arbitrary: clk)
  case Nil
  then show ?case by simp
next
  case (Cons m ms)
  from Cons.IH [of "Suc clk"] show ?case
    by (cases "stamp_messages ms (Suc clk)") (simp add: Timestamp_send_def op_of_def)
qed

lemma undo_reduce_eq:
  "undo_reduce entries acc =
     acc @ concat (map (\<lambda>e. List.map_filter (\<lambda>m. undoMessage m (entry_oldData e))
                              (entry_messages e)) entries)"
  by (induction entries arbitrary: acc) auto

lemma map_filter_append:
  "List.map_filter f (xs @ ys) = List.map_filter f xs @ List.map_filter f ys"
  by (simp add: List.map_filter_def)

lemma map_filter_rev: "List.map_filter f (rev xs) = rev (List.map_filter f xs)"
  by (simp add: List.map_filter_def rev_map rev_filter)

lemma map_filter_paired:
  "List.map_filter (\<lambda>(m, old). g m old) (map (\<lambda>m. (m, d)) ms) = List.map_filter (\<lambda>m. g m d) ms"
  by (induction ms) (auto simp: List.map_filter_def)

lemma inverses_reversed:
  "rev (concat (map (\<lambda>e. List.map_filter (\<lambda>m. undoMessage m (entry_oldData e))
                            (entry_messages e)) entries)) =
   List.map_filter (\<lambda>(m, old). undoMessage m old) (rev (recorded_operations entries))"
proof -
  have "List.map_filter (\<lambda>(m, old). undoMessage m old) (recorded_operations entries) =
        concat (map (\<lambda>e. List.map_filter (\<lambda>m. undoMessage m (entry_oldData e))
                            (entry_messages e)) entries)"
    by (induction entries)
       (simp_all add: recorded_operations_def map_filter_append map_filter_paired)
  then show ?thesis by (simp add: map_filter_rev)
qed

lemma undo_some:
  assumes "undo s = Inr (s', Some a)"
  shows "\<exists>e es. filter is_messages
                  (drop (CURSOR s') (take (CURSOR s + 1) (MESSAGE_HISTORY s))) = e # es \<and>
           ev_messages a = rev (undo_reduce (e # es) []) \<and>
           sent a = fst (stamp_messages (ev_messages a) (clock s)) \<and>
           ev_undoTag a = entry_undoTag e \<and>
           ev_meta a = entry_meta (MESSAGE_HISTORY s ! CURSOR s')"
  using assms
  by (auto simp: undo_def Let_def applyUndoAction_def
           split: sum.splits if_splits list.splits prod.splits)

lemma undo_at_batch:
  assumes "CURSOR s < length (MESSAGE_HISTORY s)" "is_messages (MESSAGE_HISTORY s ! CURSOR s)"
  shows "\<exists>s' a. undo s = Inr (s', Some a)"
proof -
  let ?h = "MESSAGE_HISTORY s" and ?c = "CURSOR s"
  from assms have "?c - 1 < length ?h" by simp
  from walk_back_bound [OF this]
  obtain j where j: "walk_back ?h (?c - 1) = Inr j" "j \<le> ?c - 1" by blast
  with assms have jl: "j < length ?h" "j \<le> ?c" by simp_all
  have "drop j (take (?c + 1) ?h) ! (?c - j) = ?h ! ?c"
    using jl assms(1) by simp
  moreover have "?c - j < length (drop j (take (?c + 1) ?h))" using jl assms(1) by simp
  ultimately have "?h ! ?c \<in> set (drop j (take (?c + 1) ?h))"
    by (metis nth_mem)
  with assms(2) have "filter is_messages (drop j (take (?c + 1) ?h)) \<noteq> []"
    by (auto simp: filter_empty_conv)
  then obtain e es where "filter is_messages (drop j (take (?c + 1) ?h)) = e # es"
    by (cases "filter is_messages (drop j (take (?c + 1) ?h))") auto
  with j jl show ?thesis
    by (auto simp: undo_def Let_def split: prod.splits)
qed

text \<open>
  C4: when \<^verbatim>\<open>undo\<close> collects a batch (and it does whenever the cursor is on one), the
  batches collected are those between the new cursor and the old one, and the messages
  announced are the inverses of their messages taken from the latest recorded to the
  earliest, each derived with the snapshot of its own batch, the null inverses left out;
  the messages sent are these, in this order, under fresh timestamps.
\<close>

theorem undo_submits_reversed_inverses:
  "(undo s = Inr (s', Some a) \<longrightarrow>
      (let collected = filter is_messages
                         (drop (CURSOR s') (take (CURSOR s + 1) (MESSAGE_HISTORY s)))
       in collected \<noteq> [] \<and>
          ev_messages a =
            List.map_filter (\<lambda>(m, old). undoMessage m old) (rev (recorded_operations collected)) \<and>
          map op_of (sent a) = map op_of (ev_messages a))) \<and>
   (CURSOR s < length (MESSAGE_HISTORY s) \<and> is_messages (MESSAGE_HISTORY s ! CURSOR s) \<longrightarrow>
      (\<exists>s' a. undo s = Inr (s', Some a)))"
proof (intro conjI impI)
  assume u: "undo s = Inr (s', Some a)"
  from undo_some [OF u] obtain e es where
    c: "filter is_messages (drop (CURSOR s') (take (CURSOR s + 1) (MESSAGE_HISTORY s))) = e # es"
    and ev: "ev_messages a = rev (undo_reduce (e # es) [])"
    and st: "sent a = fst (stamp_messages (ev_messages a) (clock s))"
    by blast
  have "ev_messages a =
          List.map_filter (\<lambda>(m, old). undoMessage m old) (rev (recorded_operations (e # es)))"
    unfolding ev undo_reduce_eq using inverses_reversed [of "e # es"] by simp
  moreover have "map op_of (sent a) = map op_of (ev_messages a)"
    unfolding st by (rule stamp_messages_ops)
  ultimately show "let collected = filter is_messages
                         (drop (CURSOR s') (take (CURSOR s + 1) (MESSAGE_HISTORY s)))
       in collected \<noteq> [] \<and>
          ev_messages a =
            List.map_filter (\<lambda>(m, old). undoMessage m old) (rev (recorded_operations collected)) \<and>
          map op_of (sent a) = map op_of (ev_messages a)"
    using c by (simp add: Let_def)
next
  assume "CURSOR s < length (MESSAGE_HISTORY s) \<and> is_messages (MESSAGE_HISTORY s ! CURSOR s)"
  then show "\<exists>s' a. undo s = Inr (s', Some a)" using undo_at_batch by blast
qed

theorem undo_submits_reversed_inverses_witness:
  "CURSOR two_batch_log < length (MESSAGE_HISTORY two_batch_log) \<and>
   is_messages (MESSAGE_HISTORY two_batch_log ! CURSOR two_batch_log) \<and>
   (\<exists>s' a. undo two_batch_log = Inr (s', Some a) \<and>
      CURSOR s' = 0 \<and>
      ev_messages a =
        List.map_filter (\<lambda>(m, old). undoMessage m old)
          [(payee_r3, []), (mapping_r2, []), (payee_r2, [])] \<and>
      map op_of (sent a) =
        [(''payees'', ''r3'', ''tombstone'', JNum 1), (''payees'', ''r2'', ''tombstone'', JNum 1)])"
proof -
  have h: "CURSOR two_batch_log < length (MESSAGE_HISTORY two_batch_log) \<and>
           is_messages (MESSAGE_HISTORY two_batch_log ! CURSOR two_batch_log)"
    by (simp add: two_batch_log_def)
  with undo_submits_reversed_inverses [of two_batch_log]
  obtain s' a where u: "undo two_batch_log = Inr (s', Some a)" by blast
  have c: "CURSOR s' = 0"
    using u by (auto simp: undo_def two_batch_log_def applyUndoAction_def Let_def
                     split: prod.splits)
  have "filter is_messages (drop 0 (take (CURSOR two_batch_log + 1)
                                      (MESSAGE_HISTORY two_batch_log))) =
          [Messages [payee_r2, mapping_r2] [] (Some ''tag''),
           Messages [payee_r3] [] (Some ''tag'')]"
    by (simp add: two_batch_log_def)
  with undo_submits_reversed_inverses [of two_batch_log s' a] u c
  have ev: "ev_messages a =
              List.map_filter (\<lambda>(m, old). undoMessage m old)
                [(payee_r3, []), (mapping_r2, []), (payee_r2, [])]"
    and st: "map op_of (sent a) = map op_of (ev_messages a)"
    by (simp_all add: Let_def recorded_operations_def)
  have "map op_of (List.map_filter (\<lambda>(m, old). undoMessage m old)
                     [(payee_r3, []), (mapping_r2, []), (payee_r2, [])]) =
          [(''payees'', ''r3'', ''tombstone'', JNum 1), (''payees'', ''r2'', ''tombstone'', JNum 1)]"
    by (simp add: List.map_filter_simps undoMessage_def getIn_def op_of_def
          payee_r2_def payee_r3_def mapping_r2_def)
  with h u c ev st show ?thesis by simp
qed

subsection \<open>Counting markers, and what trimming keeps\<close>

lemma count_markers_append [simp]:
  "count_markers (xs @ ys) = count_markers xs + count_markers ys"
  by (simp add: count_markers_def)

lemma count_markers_Nil [simp]: "count_markers [] = 0"
  by (simp add: count_markers_def)

lemma count_markers_Cons [simp]:
  "count_markers (e # h) = (if is_marker e then 1 else 0) + count_markers h"
  by (simp add: count_markers_def)

lemma count_markers_take_drop:
  "count_markers (take n h) + count_markers (drop n h) = count_markers h"
  using count_markers_append [of "take n h" "drop n h"] by simp

lemma count_markers_take_le: "count_markers (take n h) \<le> count_markers h"
  using count_markers_take_drop [of n h] by simp

lemma count_markers_drop_le: "count_markers (drop n h) \<le> count_markers h"
  using count_markers_take_drop [of n h] by simp

lemma length_filter_enumerate:
  "length (filter (\<lambda>(i, item). P item) (enumerate n h)) = length (filter P h)"
  by (induction h arbitrary: n) auto

lemma filter_enumerate_split:
  "filter (\<lambda>(i, item). P item) (enumerate n h) = xs @ (i, e) # ys \<Longrightarrow>
     n \<le> i \<and> i - n < length h \<and> h ! (i - n) = e \<and> P e \<and>
     length (filter P (drop (i - n) h)) = Suc (length ys)"
proof (induction h arbitrary: n xs)
  case Nil
  then show ?case by simp
next
  case (Cons a h)
  show ?case
  proof (cases "P a")
    case False
    with Cons.prems have "filter (\<lambda>(i, item). P item) (enumerate (Suc n) h) = xs @ (i, e) # ys"
      by simp
    from Cons.IH [OF this] have ih: "Suc n \<le> i" "i - Suc n < length h" "h ! (i - Suc n) = e"
      "P e" "length (filter P (drop (i - Suc n) h)) = Suc (length ys)" by simp_all
    then have "i - n = Suc (i - Suc n)" by simp
    with ih show ?thesis by simp
  next
    case True
    show ?thesis
    proof (cases xs)
      case Nil
      with True Cons.prems have "i = n" "e = a"
        "ys = filter (\<lambda>(i, item). P item) (enumerate (Suc n) h)" by auto
      with True show ?thesis by (simp add: length_filter_enumerate)
    next
      case (Cons x xs')
      with True Cons.prems
      have "filter (\<lambda>(i, item). P item) (enumerate (Suc n) h) = xs' @ (i, e) # ys"
        by simp
      from Cons.IH [OF this] have ih: "Suc n \<le> i" "i - Suc n < length h" "h ! (i - Suc n) = e"
        "P e" "length (filter P (drop (i - Suc n) h)) = Suc (length ys)" by simp_all
      then have "i - n = Suc (i - Suc n)" by simp
      with ih show ?thesis by simp
    qed
  qed
qed

lemma trimHistory_small:
  assumes "count_markers (take (CURSOR s + 1) (MESSAGE_HISTORY s)) \<le> HISTORY_SIZE"
  shows "trimHistory s = s\<lparr>MESSAGE_HISTORY := take (CURSOR s + 1) (MESSAGE_HISTORY s)\<rparr>"
  using assms
  by (simp add: trimHistory_def Let_def length_filter_enumerate count_markers_def)

lemma trimHistory_large:
  assumes "HISTORY_SIZE < count_markers (take (CURSOR s + 1) (MESSAGE_HISTORY s))"
  shows "\<exists>k. k < length (take (CURSOR s + 1) (MESSAGE_HISTORY s)) \<and>
           is_marker (take (CURSOR s + 1) (MESSAGE_HISTORY s) ! k) \<and>
           count_markers (drop k (take (CURSOR s + 1) (MESSAGE_HISTORY s))) = HISTORY_SIZE \<and>
           trimHistory s =
             s\<lparr>MESSAGE_HISTORY := drop k (take (CURSOR s + 1) (MESSAGE_HISTORY s)),
               CURSOR := length (drop k (take (CURSOR s + 1) (MESSAGE_HISTORY s))) - 1\<rparr>"
proof -
  define h where "h = take (CURSOR s + 1) (MESSAGE_HISTORY s)"
  define ms where "ms = filter (\<lambda>(i, item). is_marker item) (enumerate 0 h)"
  define sl where "sl = drop (length ms - HISTORY_SIZE) ms"
  have len: "length ms = count_markers h"
    by (simp add: ms_def length_filter_enumerate count_markers_def)
  with assms have big: "HISTORY_SIZE < length ms" by (simp add: h_def)
  have "length sl = HISTORY_SIZE" unfolding sl_def using big by simp
  moreover have "0 < HISTORY_SIZE" by (simp add: HISTORY_SIZE_def)
  ultimately obtain k e ys where sl: "sl = (k, e) # ys" and ys: "Suc (length ys) = HISTORY_SIZE"
    by (cases sl) auto
  have "ms = take (length ms - HISTORY_SIZE) ms @ sl"
    by (simp add: sl_def)
  then have "filter (\<lambda>(i, item). is_marker item) (enumerate 0 h) =
               take (length ms - HISTORY_SIZE) ms @ (k, e) # ys"
    using sl by (simp add: ms_def)
  from filter_enumerate_split [OF this]
  have k: "k < length h" "h ! k = e" "is_marker e"
    "length (filter is_marker (drop k h)) = Suc (length ys)" by simp_all
  have "trimHistory s = s\<lparr>MESSAGE_HISTORY := drop k h, CURSOR := length (drop k h) - 1\<rparr>"
    using big sl unfolding trimHistory_def Let_def h_def [symmetric] ms_def [symmetric]
      sl_def [symmetric] by simp
  with k ys show ?thesis unfolding h_def [symmetric] by (auto simp: count_markers_def)
qed

lemma trimHistory_cases:
  "\<exists>k. MESSAGE_HISTORY (trimHistory s) = drop k (take (CURSOR s + 1) (MESSAGE_HISTORY s)) \<and>
       (k = 0 \<and> CURSOR (trimHistory s) = CURSOR s \<or>
        k < length (take (CURSOR s + 1) (MESSAGE_HISTORY s)) \<and>
        is_marker (take (CURSOR s + 1) (MESSAGE_HISTORY s) ! k) \<and>
        CURSOR (trimHistory s) = length (MESSAGE_HISTORY (trimHistory s)) - 1) \<and>
       count_markers (MESSAGE_HISTORY (trimHistory s)) \<le> HISTORY_SIZE \<and>
       clock (trimHistory s) = clock s"
proof (cases "count_markers (take (CURSOR s + 1) (MESSAGE_HISTORY s)) \<le> HISTORY_SIZE")
  case True
  from trimHistory_small [OF True] True show ?thesis
    by (intro exI [of _ 0]) simp
next
  case False
  then have "HISTORY_SIZE < count_markers (take (CURSOR s + 1) (MESSAGE_HISTORY s))" by simp
  from trimHistory_large [OF this] obtain k where
    "k < length (take (CURSOR s + 1) (MESSAGE_HISTORY s))"
    "is_marker (take (CURSOR s + 1) (MESSAGE_HISTORY s) ! k)"
    "count_markers (drop k (take (CURSOR s + 1) (MESSAGE_HISTORY s))) = HISTORY_SIZE"
    "trimHistory s =
       s\<lparr>MESSAGE_HISTORY := drop k (take (CURSOR s + 1) (MESSAGE_HISTORY s)),
         CURSOR := length (drop k (take (CURSOR s + 1) (MESSAGE_HISTORY s))) - 1\<rparr>"
    by blast
  then show ?thesis by (intro exI [of _ k]) simp
qed

lemma well_formed_iff:
  "well_formed s \<longleftrightarrow>
     MESSAGE_HISTORY s \<noteq> [] \<and> is_marker (MESSAGE_HISTORY s ! 0) \<and>
     CURSOR s < length (MESSAGE_HISTORY s)"
  by (cases "MESSAGE_HISTORY s") (auto simp: well_formed_def)

lemma trimHistory_well_formed:
  assumes "well_formed s"
  shows "well_formed (trimHistory s) \<and>
         CURSOR (trimHistory s) = length (MESSAGE_HISTORY (trimHistory s)) - 1 \<and>
         count_markers (MESSAGE_HISTORY (trimHistory s)) \<le> HISTORY_SIZE \<and>
         count_markers (MESSAGE_HISTORY (trimHistory s)) \<le> markers_upto s"
proof -
  let ?h = "take (CURSOR s + 1) (MESSAGE_HISTORY s)"
  from assms have wf: "MESSAGE_HISTORY s \<noteq> []" "is_marker (MESSAGE_HISTORY s ! 0)"
    "CURSOR s < length (MESSAGE_HISTORY s)" by (simp_all add: well_formed_iff)
  then have lh: "length ?h = CURSOR s + 1" by simp
  from trimHistory_cases [of s] obtain k where
    h': "MESSAGE_HISTORY (trimHistory s) = drop k ?h"
    and k: "k = 0 \<and> CURSOR (trimHistory s) = CURSOR s \<or>
        k < length ?h \<and> is_marker (?h ! k) \<and>
        CURSOR (trimHistory s) = length (MESSAGE_HISTORY (trimHistory s)) - 1"
    and c: "count_markers (MESSAGE_HISTORY (trimHistory s)) \<le> HISTORY_SIZE"
    by blast
  have le: "count_markers (MESSAGE_HISTORY (trimHistory s)) \<le> markers_upto s"
    unfolding h' markers_upto_def by (rule count_markers_drop_le)
  from k show ?thesis
  proof
    assume "k = 0 \<and> CURSOR (trimHistory s) = CURSOR s"
    with h' wf lh c le show ?thesis by (simp add: well_formed_iff)
  next
    assume a: "k < length ?h \<and> is_marker (?h ! k) \<and>
        CURSOR (trimHistory s) = length (MESSAGE_HISTORY (trimHistory s)) - 1"
    then have kl: "k < length ?h" and mk: "is_marker (?h ! k)"
      and cur: "CURSOR (trimHistory s) = length (MESSAGE_HISTORY (trimHistory s)) - 1"
      by blast+
    define g where "g = drop k ?h"
    have ne: "g \<noteq> []" unfolding g_def using kl by (simp add: min_def)
    have z: "g ! 0 = ?h ! k" unfolding g_def using kl by (simp add: min_def)
    have hg: "MESSAGE_HISTORY (trimHistory s) = g" using h' by (simp add: g_def)
    from ne have "length g - 1 < length g" by (cases g) simp_all
    with ne z mk cur hg have "well_formed (trimHistory s)"
      unfolding well_formed_iff by simp
    with cur c le show ?thesis by simp
  qed
qed

subsection \<open>Recording keeps the log in shape\<close>

lemma appendMessages_recording:
  assumes "well_formed s" "undoListening context" "messages \<noteq> []"
  shows "well_formed (appendMessages context messages oldData s) \<and>
         count_markers (MESSAGE_HISTORY (appendMessages context messages oldData s))
           \<le> HISTORY_SIZE \<and>
         CURSOR (appendMessages context messages oldData s) =
           length (MESSAGE_HISTORY (appendMessages context messages oldData s)) - 1 \<and>
         is_messages (MESSAGE_HISTORY (appendMessages context messages oldData s) !
                        CURSOR (appendMessages context messages oldData s)) \<and>
         markers_upto (appendMessages context messages oldData s) \<le> markers_upto s"
proof -
  define t where "t = trimHistory s"
  define g where "g = MESSAGE_HISTORY t"
  from trimHistory_well_formed [OF assms(1)]
  have t: "well_formed t" "CURSOR t = length g - 1"
    "count_markers g \<le> HISTORY_SIZE" "count_markers g \<le> markers_upto s"
    by (simp_all add: t_def g_def)
  from t(1) have ne: "g \<noteq> []" and m0: "is_marker (g ! 0)"
    by (simp_all add: well_formed_iff g_def)
  define b where "b = Messages messages oldData (undoTag context)"
  have a: "appendMessages context messages oldData s =
             t\<lparr>MESSAGE_HISTORY := g @ [b], CURSOR := CURSOR t + 1\<rparr>"
    using assms(2,3) by (simp add: appendMessages_def Let_def t_def g_def b_def)
  have l: "length g - 1 + 1 = length g" using ne by (cases g) simp_all
  have f: "(g @ [b]) ! 0 = g ! 0" using ne by (cases g) simp_all
  have wf: "well_formed (t\<lparr>MESSAGE_HISTORY := g @ [b], CURSOR := CURSOR t + 1\<rparr>)"
    unfolding well_formed_iff using m0 f t(2) l by simp
  have mu: "markers_upto (t\<lparr>MESSAGE_HISTORY := g @ [b], CURSOR := CURSOR t + 1\<rparr>) =
              count_markers g"
    using t(2) l by (simp add: markers_upto_def b_def)
  have "is_messages ((g @ [b]) ! length g)" by (simp add: b_def)
  with wf mu t l show ?thesis unfolding a by (simp add: b_def)
qed

lemma appendMessages_invariant:
  assumes "well_formed s" "marker_bound (MESSAGE_HISTORY s)"
  shows "well_formed (appendMessages context messages oldData s) \<and>
         marker_bound (MESSAGE_HISTORY (appendMessages context messages oldData s))"
proof (cases "undoListening context \<and> messages \<noteq> []")
  case True
  with appendMessages_recording [OF assms(1), of "context" messages oldData]
  show ?thesis by (simp add: marker_bound_def)
next
  case False
  then have "appendMessages context messages oldData s = s"
    by (auto simp: appendMessages_def)
  with assms show ?thesis by simp
qed

lemma count_markers_update_last:
  assumes "h \<noteq> []" "is_marker (h ! (length h - 1))"
  shows "count_markers (h[length h - 1 := Marker meta]) = count_markers h"
proof -
  from assms(1) obtain xs x where h: "h = xs @ [x]" by (metis rev_exhaust)
  with assms(2) show ?thesis by (simp add: list_update_append)
qed

lemma withUndo_noop:
  "undoDisabled context \<or> undoListening context \<Longrightarrow> withUndo context meta s = Inr (s, context)"
  by (simp add: withUndo_def)

lemma withUndo_marker:
  assumes "well_formed s" "\<not> undoDisabled context" "\<not> undoListening context"
  shows "\<exists>s' context'. withUndo context meta s = Inr (s', context') \<and>
           undoListening context' \<and> undoTag context' = undoTag context \<and>
           well_formed s' \<and>
           CURSOR s' = length (MESSAGE_HISTORY s') - 1 \<and>
           is_marker (MESSAGE_HISTORY s' ! CURSOR s') \<and>
           markers_upto s' \<le> markers_before s + 1 \<and>
           count_markers (MESSAGE_HISTORY s') =
             (if is_marker (MESSAGE_HISTORY s ! CURSOR s) then markers_upto s
              else markers_upto s + 1)"
proof -
  define h where "h = take (CURSOR s + 1) (MESSAGE_HISTORY s)"
  from assms(1) have wf: "MESSAGE_HISTORY s \<noteq> []" "is_marker (MESSAGE_HISTORY s ! 0)"
    "CURSOR s < length (MESSAGE_HISTORY s)" by (simp_all add: well_formed_iff)
  then have lh: "length h = CURSOR s + 1" by (simp add: h_def)
  then have ne: "h \<noteq> []" by auto
  have h0: "h ! 0 = MESSAGE_HISTORY s ! 0" by (simp add: h_def)
  have hl: "h ! (length h - 1) = MESSAGE_HISTORY s ! CURSOR s" using lh by (simp add: h_def)
  have hs: "h = take (CURSOR s) (MESSAGE_HISTORY s) @ [MESSAGE_HISTORY s ! CURSOR s]"
    using wf(3) by (simp add: h_def take_Suc_conv_app_nth)
  have mu: "markers_upto s = count_markers h" by (simp add: markers_upto_def h_def)
  have mb: "count_markers h =
              markers_before s + (if is_marker (MESSAGE_HISTORY s ! CURSOR s) then 1 else 0)"
    by (subst hs) (simp add: markers_before_def)
  show ?thesis
  proof (cases "is_marker (MESSAGE_HISTORY s ! CURSOR s)")
    case True
    define s' where "s' = s\<lparr>MESSAGE_HISTORY := h[length h - 1 := Marker meta]\<rparr>"
    have w: "withUndo context meta s =
               Inr (s', context\<lparr>undoListening := True, undoTag := undoTag context\<rparr>)"
      using assms(2,3) ne True hl
      unfolding withUndo_def Let_def h_def [symmetric] s'_def by simp
    have c: "count_markers (MESSAGE_HISTORY s') = count_markers h"
      using count_markers_update_last [OF ne, of meta] True hl by (simp add: s'_def)
    have f: "MESSAGE_HISTORY s' ! 0 = (if CURSOR s = 0 then Marker meta else h ! 0)"
      using lh by (simp add: s'_def nth_list_update)
    have "well_formed s'"
      unfolding well_formed_iff using f h0 wf(2) lh ne by (auto simp: s'_def)
    moreover have "CURSOR s' = length (MESSAGE_HISTORY s') - 1" using lh by (simp add: s'_def)
    moreover have "is_marker (MESSAGE_HISTORY s' ! CURSOR s')" using lh by (simp add: s'_def)
    moreover have "markers_upto s' = count_markers (MESSAGE_HISTORY s')"
      using lh by (simp add: markers_upto_def s'_def)
    ultimately show ?thesis using w c mb mu True by simp
  next
    case False
    define s' where "s' = s\<lparr>MESSAGE_HISTORY := h @ [Marker meta], CURSOR := CURSOR s + 1\<rparr>"
    have w: "withUndo context meta s =
               Inr (s', context\<lparr>undoListening := True, undoTag := undoTag context\<rparr>)"
      using assms(2,3) ne False hl
      unfolding withUndo_def Let_def h_def [symmetric] s'_def by simp
    have c: "count_markers (MESSAGE_HISTORY s') = count_markers h + 1"
      by (simp add: s'_def)
    have f: "MESSAGE_HISTORY s' ! 0 = h ! 0" using ne by (cases h) (simp_all add: s'_def)
    have "well_formed s'"
      unfolding well_formed_iff using f h0 wf(2) lh by (simp add: s'_def)
    moreover have "CURSOR s' = length (MESSAGE_HISTORY s') - 1" using lh by (simp add: s'_def)
    moreover have "is_marker (MESSAGE_HISTORY s' ! CURSOR s')"
      using lh by (simp add: s'_def nth_append)
    moreover have "markers_upto s' = count_markers (MESSAGE_HISTORY s')"
      using lh by (simp add: markers_upto_def s'_def)
    ultimately show ?thesis using w c mb mu False by simp
  qed
qed

lemma marker_bound_prefix:
  assumes "marker_bound h" "c < length h" "\<not> is_marker (h ! c)"
  shows "count_markers (take (c + 1) h) \<le> HISTORY_SIZE"
proof (cases "count_markers h \<le> HISTORY_SIZE")
  case True
  with count_markers_take_le [of "c + 1" h] show ?thesis by simp
next
  case False
  with assms(1) have e: "count_markers h = HISTORY_SIZE + 1"
    and l: "is_marker (h ! (length h - 1))" by (auto simp: marker_bound_def)
  from l assms(3) have "c \<noteq> length h - 1" by auto
  with assms(2) have lt: "c + 1 \<le> length h - 1" by simp
  then have d: "drop (c + 1) h \<noteq> []" "c + 1 < length h" using assms(2) by simp_all
  from assms(2) have "h \<noteq> []" by auto
  then have "last h = h ! (length h - 1)" by (rule last_conv_nth)
  moreover have "last (drop (c + 1) h) = last h" using d(2) by (rule last_drop)
  moreover have "last (drop (c + 1) h) \<in> set (drop (c + 1) h)" using d(1) by (rule last_in_set)
  ultimately have "h ! (length h - 1) \<in> set (drop (c + 1) h)" by simp
  with l have "filter is_marker (drop (c + 1) h) \<noteq> []" by (auto simp: filter_empty_conv)
  then have "0 < count_markers (drop (c + 1) h)" by (simp add: count_markers_def)
  with count_markers_take_drop [of "c + 1" h] e show ?thesis by simp
qed

lemma withUndo_invariant:
  assumes "well_formed s" "marker_bound (MESSAGE_HISTORY s)"
  shows "\<exists>s' context'. withUndo context meta s = Inr (s', context') \<and>
           well_formed s' \<and> marker_bound (MESSAGE_HISTORY s')"
proof (cases "undoDisabled context \<or> undoListening context")
  case True
  from withUndo_noop [OF True] assms show ?thesis by simp
next
  case False
  then have n: "\<not> undoDisabled context" "\<not> undoListening context" by simp_all
  from withUndo_marker [OF assms(1) n, of meta] obtain s' context' where
    w: "withUndo context meta s = Inr (s', context')" and wf: "well_formed s'"
    and cur: "CURSOR s' = length (MESSAGE_HISTORY s') - 1"
    and mk: "is_marker (MESSAGE_HISTORY s' ! CURSOR s')"
    and cnt: "count_markers (MESSAGE_HISTORY s') =
             (if is_marker (MESSAGE_HISTORY s ! CURSOR s) then markers_upto s
              else markers_upto s + 1)"
    by blast
  from assms(1) have c: "CURSOR s < length (MESSAGE_HISTORY s)" by (simp add: well_formed_iff)
  from wf have ne: "MESSAGE_HISTORY s' \<noteq> []" by (simp add: well_formed_iff)
  have "count_markers (MESSAGE_HISTORY s') \<le> HISTORY_SIZE + 1"
  proof (cases "is_marker (MESSAGE_HISTORY s ! CURSOR s)")
    case True
    have "markers_upto s \<le> count_markers (MESSAGE_HISTORY s)"
      unfolding markers_upto_def by (rule count_markers_take_le)
    moreover from assms(2) have "count_markers (MESSAGE_HISTORY s) \<le> HISTORY_SIZE + 1"
      by (auto simp: marker_bound_def)
    ultimately show ?thesis using cnt True by simp
  next
    case False
    from marker_bound_prefix [OF assms(2) c False] cnt False show ?thesis
      by (simp add: markers_upto_def)
  qed
  with mk cur ne have "marker_bound (MESSAGE_HISTORY s')"
    by (auto simp: marker_bound_def)
  with w wf show ?thesis by blast
qed

subsection \<open>Every call keeps the log in shape\<close>

lemma walk_back_marker:
  "walk_back h c = Inr j \<Longrightarrow> j \<le> c \<and> (j = 0 \<or> is_marker (h ! j))"
  by (induction c) (auto split: if_splits)

lemma undo_cursor:
  assumes "CURSOR s < length (MESSAGE_HISTORY s)"
  shows "\<exists>s' a j. undo s = Inr (s', a) \<and>
           walk_back (MESSAGE_HISTORY s) (CURSOR s - 1) = Inr j \<and>
           CURSOR s' = j \<and> MESSAGE_HISTORY s' = MESSAGE_HISTORY s"
proof -
  from assms have "CURSOR s - 1 < length (MESSAGE_HISTORY s)" by simp
  from walk_back_bound [OF this]
  obtain j where j: "walk_back (MESSAGE_HISTORY s) (CURSOR s - 1) = Inr j" "j \<le> CURSOR s - 1"
    by blast
  with assms have "j < length (MESSAGE_HISTORY s)" by simp
  with j show ?thesis
    by (auto simp: undo_def Let_def applyUndoAction_def split: list.splits prod.splits)
qed

lemma redo_cursor:
  assumes "CURSOR s < length (MESSAGE_HISTORY s)"
  shows "\<exists>s' a. redo s = Inr (s', a) \<and>
           CURSOR s' = walk_forward (MESSAGE_HISTORY s)
                         (min (CURSOR s + 1) (length (MESSAGE_HISTORY s) - 1)) \<and>
           MESSAGE_HISTORY s' = MESSAGE_HISTORY s"
  using assms
  by (auto simp: redo_def Let_def applyUndoAction_def split: prod.splits)

lemma undo_well_formed:
  assumes "well_formed s"
  shows "\<exists>s' a. undo s = Inr (s', a) \<and> well_formed s' \<and>
           MESSAGE_HISTORY s' = MESSAGE_HISTORY s \<and>
           CURSOR s' \<le> CURSOR s - 1 \<and> is_marker (MESSAGE_HISTORY s ! CURSOR s')"
proof -
  from assms have wf: "MESSAGE_HISTORY s \<noteq> []" "is_marker (MESSAGE_HISTORY s ! 0)"
    "CURSOR s < length (MESSAGE_HISTORY s)" by (simp_all add: well_formed_iff)
  from undo_cursor [OF wf(3)] obtain s' a j where
    u: "undo s = Inr (s', a)" and j: "walk_back (MESSAGE_HISTORY s) (CURSOR s - 1) = Inr j"
    and c: "CURSOR s' = j" and h: "MESSAGE_HISTORY s' = MESSAGE_HISTORY s" by blast
  from walk_back_marker [OF j] wf(2)
  have "j \<le> CURSOR s - 1" "is_marker (MESSAGE_HISTORY s ! j)" by auto
  with u c h wf show ?thesis by (auto simp: well_formed_iff)
qed

lemma redo_well_formed:
  assumes "well_formed s"
  shows "\<exists>s' a. redo s = Inr (s', a) \<and> well_formed s' \<and>
           MESSAGE_HISTORY s' = MESSAGE_HISTORY s"
proof -
  from assms have wf: "MESSAGE_HISTORY s \<noteq> []" "is_marker (MESSAGE_HISTORY s ! 0)"
    "CURSOR s < length (MESSAGE_HISTORY s)" by (simp_all add: well_formed_iff)
  from redo_cursor [OF wf(3)] obtain s' a where
    r: "redo s = Inr (s', a)"
    and c: "CURSOR s' = walk_forward (MESSAGE_HISTORY s)
                         (min (CURSOR s + 1) (length (MESSAGE_HISTORY s) - 1))"
    and h: "MESSAGE_HISTORY s' = MESSAGE_HISTORY s" by blast
  from wf have "min (CURSOR s + 1) (length (MESSAGE_HISTORY s) - 1) < length (MESSAGE_HISTORY s)"
    by simp
  from walk_forward_bound [OF this] c have "CURSOR s' < length (MESSAGE_HISTORY s)" by simp
  with r h wf show ?thesis by (auto simp: well_formed_iff)
qed

lemma initial_state_invariant:
  "well_formed initial_state \<and> marker_bound (MESSAGE_HISTORY initial_state)"
  by (simp add: well_formed_def initial_state_def marker_bound_def HISTORY_SIZE_def)

lemma clearUndo_invariant:
  "well_formed (clearUndo s) \<and> marker_bound (MESSAGE_HISTORY (clearUndo s))"
  by (simp add: well_formed_def clearUndo_def marker_bound_def HISTORY_SIZE_def)

lemma step_invariant:
  assumes "well_formed s" "marker_bound (MESSAGE_HISTORY s)"
  shows "\<exists>s'. step c s = Inr s' \<and> well_formed s' \<and> marker_bound (MESSAGE_HISTORY s')"
proof (cases c)
  case (WithUndo ctx meta)
  from withUndo_invariant [OF assms, of ctx meta] WithUndo show ?thesis by auto
next
  case (AppendMessages ctx ms old)
  from appendMessages_invariant [OF assms, of ctx ms old] AppendMessages show ?thesis by simp
next
  case Undo
  from undo_well_formed [OF assms(1)] assms(2) Undo show ?thesis by auto
next
  case Redo
  from redo_well_formed [OF assms(1)] assms(2) Redo show ?thesis by auto
next
  case ClearUndo
  with clearUndo_invariant [of s] show ?thesis by simp
qed

lemma run_invariant:
  assumes "well_formed s" "marker_bound (MESSAGE_HISTORY s)"
  shows "\<exists>s'. run cs s = Inr s' \<and> well_formed s' \<and> marker_bound (MESSAGE_HISTORY s')"
  using assms
proof (induction cs arbitrary: s)
  case Nil
  then show ?case by simp
next
  case (Cons c cs)
  from step_invariant [OF Cons.prems, of c] obtain s1 where
    s1: "step c s = Inr s1" "well_formed s1" "marker_bound (MESSAGE_HISTORY s1)" by blast
  from Cons.IH [OF s1(2,3)] s1(1) show ?case by simp
qed

lemma run_reachable:
  "\<exists>s. run cs initial_state = Inr s \<and> well_formed s \<and> marker_bound (MESSAGE_HISTORY s)"
  using run_invariant initial_state_invariant by blast

lemma run_two_batch_calls: "run two_batch_calls initial_state = Inr two_batch_log"
  by (simp add: two_batch_calls_def initial_state_def two_batch_log_def withUndo_def
        appendMessages_def trimHistory_def plain_context_def listening_context_def
        HISTORY_SIZE_def enumerate_eq_zip)

text \<open>
  C5, as stated, fails: a transaction that records twice leaves two batches next to each
  other, the second preceded by a batch and not by a marker.
\<close>

theorem adjacent_batches_counterexample:
  "run two_batch_calls initial_state = Inr two_batch_log \<and>
   is_messages (MESSAGE_HISTORY two_batch_log ! 2) \<and>
   is_messages (MESSAGE_HISTORY two_batch_log ! 1) \<and>
   \<not> is_marker (MESSAGE_HISTORY two_batch_log ! 1)"
  using run_two_batch_calls by (simp add: two_batch_log_def)

subsection \<open>The batches of a transaction stay together\<close>

lemma withUndo_last_marker:
  assumes "well_formed s" "\<not> undoDisabled ctx" "\<not> undoListening ctx"
  shows "\<exists>s' ctx' pre. withUndo ctx meta s = Inr (s', ctx') \<and>
           MESSAGE_HISTORY s' = pre @ [Marker meta] \<and>
           CURSOR s' = length (MESSAGE_HISTORY s') - 1 \<and>
           undoListening ctx' \<and> undoTag ctx' = undoTag ctx"
proof -
  define h where "h = take (CURSOR s + 1) (MESSAGE_HISTORY s)"
  from assms(1) have c: "CURSOR s < length (MESSAGE_HISTORY s)" by (simp add: well_formed_iff)
  then have lh: "length h = CURSOR s + 1" by (simp add: h_def)
  then have ne: "h \<noteq> []" by auto
  have upd: "h[length h - 1 := Marker meta] = take (CURSOR s) (MESSAGE_HISTORY s) @ [Marker meta]"
    unfolding h_def using c by (rule take_Suc_last_marker)
  show ?thesis
  proof (cases "is_marker (h ! (length h - 1))")
    case True
    define s' where "s' = s\<lparr>MESSAGE_HISTORY := h[length h - 1 := Marker meta]\<rparr>"
    have w: "withUndo ctx meta s =
               Inr (s', ctx\<lparr>undoListening := True, undoTag := undoTag ctx\<rparr>)"
      using assms(2,3) ne True
      unfolding withUndo_def Let_def h_def [symmetric] s'_def by simp
    have "MESSAGE_HISTORY s' = take (CURSOR s) (MESSAGE_HISTORY s) @ [Marker meta]"
      using upd by (simp add: s'_def)
    moreover have "CURSOR s' = length (MESSAGE_HISTORY s') - 1" using lh by (simp add: s'_def)
    ultimately show ?thesis using w by auto
  next
    case False
    define s' where "s' = s\<lparr>MESSAGE_HISTORY := h @ [Marker meta], CURSOR := CURSOR s + 1\<rparr>"
    have w: "withUndo ctx meta s =
               Inr (s', ctx\<lparr>undoListening := True, undoTag := undoTag ctx\<rparr>)"
      using assms(2,3) ne False
      unfolding withUndo_def Let_def h_def [symmetric] s'_def by simp
    have "MESSAGE_HISTORY s' = h @ [Marker meta]" by (simp add: s'_def)
    moreover have "CURSOR s' = length (MESSAGE_HISTORY s') - 1" using lh by (simp add: s'_def)
    ultimately show ?thesis using w by auto
  qed
qed

lemma trimHistory_keeps_transaction:
  assumes "MESSAGE_HISTORY s = pre @ Marker meta # bs" "list_all is_messages bs"
    and "CURSOR s = length (MESSAGE_HISTORY s) - 1"
  shows "\<exists>pre'. MESSAGE_HISTORY (trimHistory s) = pre' @ Marker meta # bs \<and>
           CURSOR (trimHistory s) = length (MESSAGE_HISTORY (trimHistory s)) - 1"
proof -
  define h where "h = pre @ Marker meta # bs"
  have hs: "MESSAGE_HISTORY s = h" by (simp only: assms(1) h_def)
  have lh: "length h = Suc (length pre + length bs)" by (simp add: h_def)
  have cs: "CURSOR s = length pre + length bs" using assms(3) lh by (simp only: hs)
  have tk: "take (CURSOR s + 1) (MESSAGE_HISTORY s) = h"
    unfolding hs cs using lh by simp
  from trimHistory_cases [of s] obtain k where
    d: "MESSAGE_HISTORY (trimHistory s) = drop k h"
    and k: "k = 0 \<and> CURSOR (trimHistory s) = CURSOR s \<or>
            k < length h \<and> is_marker (h ! k) \<and>
            CURSOR (trimHistory s) = length (MESSAGE_HISTORY (trimHistory s)) - 1"
    unfolding tk by blast
  from k show ?thesis
  proof
    assume a: "k = 0 \<and> CURSOR (trimHistory s) = CURSOR s"
    then have "MESSAGE_HISTORY (trimHistory s) = pre @ Marker meta # bs"
      using d by (simp add: h_def)
    moreover from this a cs
    have "CURSOR (trimHistory s) = length (MESSAGE_HISTORY (trimHistory s)) - 1" by simp
    ultimately show ?thesis by blast
  next
    assume a: "k < length h \<and> is_marker (h ! k) \<and>
            CURSOR (trimHistory s) = length (MESSAGE_HISTORY (trimHistory s)) - 1"
    have "k \<le> length pre"
    proof (rule ccontr)
      assume "\<not> k \<le> length pre"
      then have "length pre < k" by simp
      from less_imp_Suc_add [OF this] obtain i where i: "k = Suc (length pre + i)" by blast
      with a lh have il: "i < length bs" by simp
      from i have "h ! k = bs ! i" by (simp add: h_def nth_append)
      moreover from assms(2) il have "is_messages (bs ! i)" by (simp add: list_all_length)
      ultimately have "\<not> is_marker (h ! k)" by (cases "bs ! i") simp_all
      with a show False by simp
    qed
    then have "drop k h = drop k pre @ Marker meta # bs" by (simp add: h_def)
    with d have "MESSAGE_HISTORY (trimHistory s) = drop k pre @ Marker meta # bs" by simp
    with a show ?thesis by blast
  qed
qed

lemma appendMessages_keeps_transaction:
  assumes "MESSAGE_HISTORY s = pre @ Marker meta # bs" "list_all is_messages bs"
    and "CURSOR s = length (MESSAGE_HISTORY s) - 1" and "undoListening ctx"
  shows "\<exists>pre'. MESSAGE_HISTORY (appendMessages ctx ms old s) =
                  pre' @ Marker meta #
                    (bs @ (if ms \<noteq> [] then [Messages ms old (undoTag ctx)] else [])) \<and>
           CURSOR (appendMessages ctx ms old s) =
             length (MESSAGE_HISTORY (appendMessages ctx ms old s)) - 1"
proof (cases "ms = []")
  case True
  then have "appendMessages ctx ms old s = s" by (simp add: appendMessages_def)
  with True assms show ?thesis by auto
next
  case False
  define t where "t = trimHistory s"
  from trimHistory_keeps_transaction [OF assms(1-3)] obtain pre' where
    h: "MESSAGE_HISTORY t = pre' @ Marker meta # bs"
    and c: "CURSOR t = length (MESSAGE_HISTORY t) - 1" unfolding t_def by blast
  have "appendMessages ctx ms old s =
          t\<lparr>MESSAGE_HISTORY := MESSAGE_HISTORY t @ [Messages ms old (undoTag ctx)],
            CURSOR := CURSOR t + 1\<rparr>"
    using False assms(4) by (simp add: appendMessages_def Let_def t_def)
  with h c False show ?thesis by auto
qed

lemma fold_appendMessages_keeps_transaction:
  assumes "MESSAGE_HISTORY s = pre @ Marker meta # bs" "list_all is_messages bs"
    and "CURSOR s = length (MESSAGE_HISTORY s) - 1" and "undoListening ctx"
  shows "\<exists>pre'. MESSAGE_HISTORY
                   (fold (\<lambda>(messages, oldData). appendMessages ctx messages oldData)
                      batches s) =
                  pre' @ Marker meta #
                    (bs @ map (\<lambda>(messages, oldData). Messages messages oldData (undoTag ctx))
                            (filter (\<lambda>(messages, oldData). messages \<noteq> []) batches)) \<and>
           CURSOR (fold (\<lambda>(messages, oldData). appendMessages ctx messages oldData)
                     batches s) =
             length (MESSAGE_HISTORY
                       (fold (\<lambda>(messages, oldData). appendMessages ctx messages oldData)
                          batches s)) - 1"
  using assms(1-3)
proof (induction batches arbitrary: s pre bs)
  case Nil
  then show ?case by auto
next
  case (Cons b batches)
  obtain ms old where b: "b = (ms, old)" by (cases b)
  define s1 where "s1 = appendMessages ctx ms old s"
  define bs1 where "bs1 = bs @ (if ms \<noteq> [] then [Messages ms old (undoTag ctx)] else [])"
  from appendMessages_keeps_transaction [OF Cons.prems assms(4), of ms old] obtain pre1 where
    h1: "MESSAGE_HISTORY s1 = pre1 @ Marker meta # bs1"
    and c1: "CURSOR s1 = length (MESSAGE_HISTORY s1) - 1"
    unfolding s1_def bs1_def by blast
  have l1: "list_all is_messages bs1" using Cons.prems(2) by (simp add: bs1_def)
  from Cons.IH [OF h1 l1 c1] show ?case
    unfolding s1_def bs1_def b by (cases "ms = []") simp_all
qed

lemma run_transaction_adjacent:
  assumes "well_formed s" "\<not> undoListening ctx" "\<not> undoDisabled ctx"
  shows "\<exists>s' pre. run_transaction ctx meta batches s = Inr s' \<and>
           MESSAGE_HISTORY s' =
             pre @ Marker meta #
               map (\<lambda>(messages, oldData). Messages messages oldData (undoTag ctx))
                 (filter (\<lambda>(messages, oldData). messages \<noteq> []) batches) \<and>
           CURSOR s' = length (MESSAGE_HISTORY s') - 1"
proof -
  from withUndo_last_marker [OF assms(1,3,2), of meta] obtain s1 ctx1 pre where
    w: "withUndo ctx meta s = Inr (s1, ctx1)"
    and h: "MESSAGE_HISTORY s1 = pre @ Marker meta # []"
    and c: "CURSOR s1 = length (MESSAGE_HISTORY s1) - 1"
    and l: "undoListening ctx1" and t: "undoTag ctx1 = undoTag ctx" by auto
  have e: "list_all is_messages []" by simp
  from fold_appendMessages_keeps_transaction [OF h e c l, of batches] w t
  show ?thesis by (auto simp: run_transaction_def)
qed

text \<open>
  C5, amended: every sequence of calls of \<^verbatim>\<open>withUndo\<close>, \<^verbatim>\<open>appendMessages\<close>,
  \<^verbatim>\<open>undo\<close>, \<^verbatim>\<open>redo\<close> and \<^verbatim>\<open>clearUndo\<close> from the initial log runs without
  raising and ends in a log whose first entry is a marker and whose cursor points into
  it, so every batch has a marker somewhere before it; and a transaction run from such a
  log leaves, at the end of the log, its marker followed by the batches it recorded, one
  after the other in the order of recording, with no marker between them.
\<close>

theorem log_starts_with_marker:
  "\<exists>s. run calls initial_state = Inr s \<and>
     MESSAGE_HISTORY s \<noteq> [] \<and> is_marker (MESSAGE_HISTORY s ! 0) \<and>
     CURSOR s < length (MESSAGE_HISTORY s) \<and>
     (\<forall>i < length (MESSAGE_HISTORY s).
        is_messages (MESSAGE_HISTORY s ! i) \<longrightarrow> (\<exists>j < i. is_marker (MESSAGE_HISTORY s ! j))) \<and>
     (\<not> undoListening ctx \<and> \<not> undoDisabled ctx \<longrightarrow>
        (\<exists>s' pre. run_transaction ctx meta batches s = Inr s' \<and>
           MESSAGE_HISTORY s' =
             pre @ Marker meta #
               map (\<lambda>(messages, oldData). Messages messages oldData (undoTag ctx))
                 (filter (\<lambda>(messages, oldData). messages \<noteq> []) batches) \<and>
           CURSOR s' = length (MESSAGE_HISTORY s') - 1))"
proof -
  from run_reachable [of calls] obtain s where
    r: "run calls initial_state = Inr s" and wf: "well_formed s" by blast
  from wf have w: "MESSAGE_HISTORY s \<noteq> []" "is_marker (MESSAGE_HISTORY s ! 0)"
    "CURSOR s < length (MESSAGE_HISTORY s)" by (simp_all add: well_formed_iff)
  have "\<exists>j < i. is_marker (MESSAGE_HISTORY s ! j)"
    if "is_messages (MESSAGE_HISTORY s ! i)" for i
  proof -
    have "i \<noteq> 0"
    proof
      assume "i = 0"
      with that w(2) show False by (cases "MESSAGE_HISTORY s ! 0") simp_all
    qed
    with w(2) show ?thesis by auto
  qed
  moreover have "\<exists>s' pre. run_transaction ctx meta batches s = Inr s' \<and>
           MESSAGE_HISTORY s' =
             pre @ Marker meta #
               map (\<lambda>(messages, oldData). Messages messages oldData (undoTag ctx))
                 (filter (\<lambda>(messages, oldData). messages \<noteq> []) batches) \<and>
           CURSOR s' = length (MESSAGE_HISTORY s') - 1"
    if "\<not> undoListening ctx \<and> \<not> undoDisabled ctx"
    using run_transaction_adjacent [OF wf, of ctx meta batches] that by blast
  ultimately show ?thesis using r w by blast
qed

theorem log_starts_with_marker_witness:
  "run two_batch_calls initial_state = Inr two_batch_log \<and>
   2 < length (MESSAGE_HISTORY two_batch_log) \<and>
   is_messages (MESSAGE_HISTORY two_batch_log ! 2) \<and>
   is_marker (MESSAGE_HISTORY two_batch_log ! 0) \<and>
   (\<exists>j < 2. is_marker (MESSAGE_HISTORY two_batch_log ! j)) \<and>
   \<not> undoListening plain_context \<and> \<not> undoDisabled plain_context \<and>
   (\<exists>s' pre. run_transaction plain_context (JStr ''next'')
                [([payee_r3], []), ([], []), ([amount_500], amount_was_300)]
                two_batch_log = Inr s' \<and>
      MESSAGE_HISTORY s' =
        pre @ [Marker (JStr ''next''),
               Messages [payee_r3] [] (Some ''tag''),
               Messages [amount_500] amount_was_300 (Some ''tag'')] \<and>
      CURSOR s' = length (MESSAGE_HISTORY s') - 1)"
proof -
  have h: "2 < length (MESSAGE_HISTORY two_batch_log)"
    "is_messages (MESSAGE_HISTORY two_batch_log ! 2)"
    by (simp_all add: two_batch_log_def)
  have n: "\<not> undoListening plain_context \<and> \<not> undoDisabled plain_context"
    by (simp add: plain_context_def)
  from log_starts_with_marker
         [of two_batch_calls plain_context "JStr ''next''"
             "[([payee_r3], []), ([], []), ([amount_500], amount_was_300)]"]
       run_two_batch_calls n
  have "is_marker (MESSAGE_HISTORY two_batch_log ! 0)"
    and "\<forall>i < length (MESSAGE_HISTORY two_batch_log).
           is_messages (MESSAGE_HISTORY two_batch_log ! i) \<longrightarrow>
           (\<exists>j < i. is_marker (MESSAGE_HISTORY two_batch_log ! j))"
    and "\<exists>s' pre. run_transaction plain_context (JStr ''next'')
                [([payee_r3], []), ([], []), ([amount_500], amount_was_300)]
                two_batch_log = Inr s' \<and>
      MESSAGE_HISTORY s' =
        pre @ Marker (JStr ''next'') #
          map (\<lambda>(messages, oldData). Messages messages oldData (undoTag plain_context))
            (filter (\<lambda>(messages, oldData). messages \<noteq> [])
               [([payee_r3], []), ([], []), ([amount_500], amount_was_300)]) \<and>
      CURSOR s' = length (MESSAGE_HISTORY s') - 1"
    by simp_all
  moreover have "map (\<lambda>(messages, oldData). Messages messages oldData (undoTag plain_context))
            (filter (\<lambda>(messages, oldData). messages \<noteq> [])
               [([payee_r3], []), ([], []), ([amount_500], amount_was_300)]) =
          [Messages [payee_r3] [] (Some ''tag''),
           Messages [amount_500] amount_was_300 (Some ''tag'')]"
    by (simp add: plain_context_def)
  ultimately show ?thesis using h n run_two_batch_calls by simp
qed

text \<open>
  C6, as stated, fails: \<^verbatim>\<open>withUndo\<close> pushes its marker without trimming, so after
  twenty recording transactions the start of the next leaves twenty-one markers.
\<close>

theorem twenty_one_markers_counterexample:
  "map_sum id (\<lambda>s. count_markers (MESSAGE_HISTORY s)) (run twenty_one_calls initial_state) =
     Inr 21 \<and> HISTORY_SIZE < 21"
  by code_simp

text \<open>
  C6, amended: in every reachable log the markers number \<open>HISTORY_SIZE + 1\<close> at most,
  and that many only while the last entry is a marker; \<^verbatim>\<open>trimHistory\<close> leaves
  \<open>HISTORY_SIZE\<close> markers at most, its result being the log up to the cursor without
  its first \<open>k\<close> entries, where nothing is dropped or the entry now first is a marker
  (whole transactions are dropped, the oldest first); so after each recorded batch the
  log has \<open>HISTORY_SIZE\<close> markers at most.
\<close>

theorem markers_bounded:
  "(run calls initial_state = Inr s \<longrightarrow>
      count_markers (MESSAGE_HISTORY s) \<le> HISTORY_SIZE + 1 \<and>
      (count_markers (MESSAGE_HISTORY s) = HISTORY_SIZE + 1 \<longrightarrow>
         is_marker (last (MESSAGE_HISTORY s)))) \<and>
   (\<exists>k. MESSAGE_HISTORY (trimHistory t) = drop k (take (CURSOR t + 1) (MESSAGE_HISTORY t)) \<and>
        (k = 0 \<or> is_marker (MESSAGE_HISTORY (trimHistory t) ! 0)) \<and>
        count_markers (MESSAGE_HISTORY (trimHistory t)) \<le> HISTORY_SIZE) \<and>
   (well_formed t \<and> undoListening ctx \<and> messages \<noteq> [] \<longrightarrow>
      count_markers (MESSAGE_HISTORY (appendMessages ctx messages oldData t)) \<le> HISTORY_SIZE)"
proof (intro conjI impI)
  assume r: "run calls initial_state = Inr s"
  with run_reachable [of calls] have wf: "well_formed s"
    and mb: "marker_bound (MESSAGE_HISTORY s)" by auto
  from mb show "count_markers (MESSAGE_HISTORY s) \<le> HISTORY_SIZE + 1"
    by (auto simp: marker_bound_def)
  assume "count_markers (MESSAGE_HISTORY s) = HISTORY_SIZE + 1"
  with mb show "is_marker (last (MESSAGE_HISTORY s))"
    by (auto simp: marker_bound_def last_conv_nth)
next
  from trimHistory_cases [of t] obtain k where
    h: "MESSAGE_HISTORY (trimHistory t) = drop k (take (CURSOR t + 1) (MESSAGE_HISTORY t))"
    and k: "k = 0 \<or> k < length (take (CURSOR t + 1) (MESSAGE_HISTORY t)) \<and>
        is_marker (take (CURSOR t + 1) (MESSAGE_HISTORY t) ! k)"
    and c: "count_markers (MESSAGE_HISTORY (trimHistory t)) \<le> HISTORY_SIZE"
    by blast
  from k have "k = 0 \<or> is_marker (MESSAGE_HISTORY (trimHistory t) ! 0)"
    unfolding h by (auto simp: min_def)
  with h c show "\<exists>k. MESSAGE_HISTORY (trimHistory t) =
            drop k (take (CURSOR t + 1) (MESSAGE_HISTORY t)) \<and>
        (k = 0 \<or> is_marker (MESSAGE_HISTORY (trimHistory t) ! 0)) \<and>
        count_markers (MESSAGE_HISTORY (trimHistory t)) \<le> HISTORY_SIZE"
    by blast
next
  assume "well_formed t \<and> undoListening ctx \<and> messages \<noteq> []"
  with appendMessages_recording [of t ctx messages oldData]
  show "count_markers (MESSAGE_HISTORY (appendMessages ctx messages oldData t)) \<le> HISTORY_SIZE"
    by simp
qed

theorem markers_bounded_witness:
  "(\<exists>s. run twenty_one_calls initial_state = Inr s \<and>
        count_markers (MESSAGE_HISTORY s) = HISTORY_SIZE + 1 \<and>
        is_marker (last (MESSAGE_HISTORY s))) \<and>
   well_formed one_transaction_log \<and> undoListening listening_context \<and>
   [payee_r3] \<noteq> [] \<and>
   count_markers (MESSAGE_HISTORY
     (appendMessages listening_context [payee_r3] [] one_transaction_log)) \<le> HISTORY_SIZE"
proof -
  have "map_sum id (\<lambda>s. count_markers (MESSAGE_HISTORY s))
          (run twenty_one_calls initial_state) = Inr 21"
    by code_simp
  then obtain s where r: "run twenty_one_calls initial_state = Inr s"
    and c: "count_markers (MESSAGE_HISTORY s) = HISTORY_SIZE + 1"
    by (cases "run twenty_one_calls initial_state") (auto simp: HISTORY_SIZE_def)
  have h: "well_formed one_transaction_log \<and> undoListening listening_context \<and>
           [payee_r3] \<noteq> []"
    by (simp add: well_formed_def one_transaction_log_def listening_context_def)
  from markers_bounded [of twenty_one_calls s one_transaction_log listening_context
                           "[payee_r3]" "[]"] r c h
  have "is_marker (last (MESSAGE_HISTORY s))"
    and "count_markers (MESSAGE_HISTORY
           (appendMessages listening_context [payee_r3] [] one_transaction_log))
           \<le> HISTORY_SIZE"
    by blast+
  with r c h show ?thesis by blast
qed

subsection \<open>As many undos as transactions\<close>

lemma markers_before_le_upto: "markers_before s \<le> markers_upto s"
proof -
  have "take (CURSOR s) (MESSAGE_HISTORY s) =
          take (CURSOR s) (take (CURSOR s + 1) (MESSAGE_HISTORY s))"
    by (simp add: min_def)
  then show ?thesis
    unfolding markers_before_def markers_upto_def
    using count_markers_take_le [of "CURSOR s" "take (CURSOR s + 1) (MESSAGE_HISTORY s)"]
    by simp
qed

lemma appendMessages_markers_upto:
  assumes "well_formed s"
  shows "well_formed (appendMessages ctx messages oldData s) \<and>
         markers_upto (appendMessages ctx messages oldData s) \<le> markers_upto s"
proof (cases "undoListening ctx \<and> messages \<noteq> []")
  case True
  with appendMessages_recording [OF assms, of ctx messages oldData] show ?thesis by simp
next
  case False
  then have "appendMessages ctx messages oldData s = s" by (auto simp: appendMessages_def)
  with assms show ?thesis by simp
qed

lemma fold_appendMessages:
  assumes "well_formed s"
  shows "well_formed (fold (\<lambda>(messages, oldData). appendMessages ctx messages oldData) bs s) \<and>
         markers_upto (fold (\<lambda>(messages, oldData). appendMessages ctx messages oldData) bs s)
           \<le> markers_upto s"
  using assms
proof (induction bs arbitrary: s)
  case Nil
  then show ?case by simp
next
  case (Cons b bs)
  obtain ms old where b: "b = (ms, old)" by (cases b)
  from appendMessages_markers_upto [OF Cons.prems, of ctx ms old]
  have wf: "well_formed (appendMessages ctx ms old s)"
    and le: "markers_upto (appendMessages ctx ms old s) \<le> markers_upto s" by simp_all
  from Cons.IH [OF wf] le show ?case by (simp add: b)
qed

lemma run_transaction_markers:
  assumes "well_formed s" "\<not> undoListening ctx" "\<not> undoDisabled ctx"
  shows "\<exists>s'. run_transaction ctx meta bs s = Inr s' \<and> well_formed s' \<and>
           markers_before s' \<le> markers_before s + 1"
proof -
  from withUndo_marker [OF assms(1,3,2), of meta] obtain s1 ctx1 where
    w: "withUndo ctx meta s = Inr (s1, ctx1)" and wf: "well_formed s1"
    and mu: "markers_upto s1 \<le> markers_before s + 1" by blast
  define s' where "s' = fold (\<lambda>(messages, oldData). appendMessages ctx1 messages oldData) bs s1"
  from fold_appendMessages [OF wf, of ctx1 bs]
  have "well_formed s'" "markers_upto s' \<le> markers_upto s1" by (simp_all add: s'_def)
  moreover have "run_transaction ctx meta bs s = Inr s'"
    using w by (simp add: run_transaction_def s'_def)
  ultimately show ?thesis using mu markers_before_le_upto [of s'] by auto
qed

lemma run_transactions_markers:
  assumes "well_formed s" "list_all recording_transaction ts"
  shows "\<exists>s'. run_transactions ts s = Inr s' \<and> well_formed s' \<and>
           markers_before s' \<le> markers_before s + length ts"
  using assms
proof (induction ts arbitrary: s)
  case Nil
  then show ?case by simp
next
  case (Cons t ts)
  obtain ctx meta bs where t: "t = (ctx, meta, bs)" by (cases t)
  from Cons.prems(2) have "recording_transaction (ctx, meta, bs)"
    and rest: "list_all recording_transaction ts" by (simp_all add: t)
  then have n: "\<not> undoListening ctx" "\<not> undoDisabled ctx"
    by (simp_all add: recording_transaction_def)
  from run_transaction_markers [OF Cons.prems(1) n, of meta bs] obtain s1 where
    r: "run_transaction ctx meta bs s = Inr s1" and wf: "well_formed s1"
    and m: "markers_before s1 \<le> markers_before s + 1" by blast
  from Cons.IH [OF wf rest] obtain s' where
    "run_transactions ts s1 = Inr s'" "well_formed s'"
    "markers_before s' \<le> markers_before s1 + length ts" by blast
  with r m show ?case by (simp add: t)
qed

lemma undo_markers_before:
  assumes "well_formed s"
  shows "\<exists>s' a. undo s = Inr (s', a) \<and> well_formed s' \<and>
           markers_before s' \<le> markers_before s - 1"
proof -
  define h where "h = MESSAGE_HISTORY s"
  from undo_well_formed [OF assms] obtain s' a where
    u: "undo s = Inr (s', a)" and wf: "well_formed s'"
    and hh: "MESSAGE_HISTORY s' = h"
    and le: "CURSOR s' \<le> CURSOR s - 1" and mk: "is_marker (h ! CURSOR s')"
    by (auto simp: h_def)
  from wf hh have lt: "CURSOR s' < length h" by (simp add: well_formed_iff)
  have "markers_before s' \<le> markers_before s - 1"
  proof (cases "CURSOR s = 0")
    case True
    with le have "CURSOR s' = 0" by simp
    then show ?thesis by (simp add: markers_before_def)
  next
    case False
    with le have j: "CURSOR s' + 1 \<le> CURSOR s" by simp
    have "take (CURSOR s' + 1) h = take (CURSOR s') h @ [h ! CURSOR s']"
      using lt by (simp add: take_Suc_conv_app_nth)
    then have "count_markers (take (CURSOR s' + 1) h) = count_markers (take (CURSOR s') h) + 1"
      using mk by simp
    moreover have "take (CURSOR s' + 1) h = take (CURSOR s' + 1) (take (CURSOR s) h)"
      using j by (simp add: min_def)
    then have "count_markers (take (CURSOR s' + 1) h) \<le> count_markers (take (CURSOR s) h)"
      using count_markers_take_le [of "CURSOR s' + 1" "take (CURSOR s) h"] by simp
    ultimately show ?thesis by (simp add: markers_before_def hh h_def [symmetric])
  qed
  with u wf show ?thesis by blast
qed

lemma no_markers_before:
  assumes "well_formed s" "markers_before s = 0"
  shows "CURSOR s = 0"
proof (rule ccontr)
  assume "CURSOR s \<noteq> 0"
  then obtain c where c: "CURSOR s = Suc c" by (cases "CURSOR s") auto
  from assms(1) obtain e h where h: "MESSAGE_HISTORY s = e # h" "is_marker e"
    by (cases "MESSAGE_HISTORY s") (auto simp: well_formed_def)
  then have "0 < markers_before s" by (simp add: markers_before_def c)
  with assms(2) show False by simp
qed

lemma undo_times_reaches_start:
  assumes "well_formed s" "markers_before s \<le> n"
  shows "\<exists>s'. undo_times n s = Inr s' \<and> CURSOR s' = 0"
  using assms
proof (induction n arbitrary: s)
  case 0
  with no_markers_before [of s] show ?case by simp
next
  case (Suc n)
  from undo_markers_before [OF Suc.prems(1)] obtain s1 a where
    u: "undo s = Inr (s1, a)" and wf: "well_formed s1"
    and m: "markers_before s1 \<le> markers_before s - 1" by blast
  from m Suc.prems(2) have "markers_before s1 \<le> n" by simp
  from Suc.IH [OF wf this] u show ?case by simp
qed

text \<open>
  C1: for every list of recording transactions run from the initial log, of whatever
  length, the run returns, as many calls of \<^verbatim>\<open>undo\<close> as there were transactions
  return too, and they leave the cursor at index 0.
\<close>

theorem undo_all_returns_to_start:
  assumes "list_all recording_transaction ts"
  shows "\<exists>s1 s2. run_transactions ts initial_state = Inr s1 \<and>
           undo_times (length ts) s1 = Inr s2 \<and> CURSOR s2 = 0"
proof -
  have wf: "well_formed initial_state" using initial_state_invariant by simp
  have z: "markers_before initial_state = 0"
    by (simp add: markers_before_def initial_state_def)
  from run_transactions_markers [OF wf assms] z obtain s1 where
    r: "run_transactions ts initial_state = Inr s1" and wf1: "well_formed s1"
    and m: "markers_before s1 \<le> length ts" by auto
  from undo_times_reaches_start [OF wf1 m] r show ?thesis by blast
qed

theorem undo_all_returns_to_start_witness:
  "list_all recording_transaction many_transactions \<and>
   HISTORY_SIZE < length many_transactions \<and>
   (\<exists>s1 s2. run_transactions many_transactions initial_state = Inr s1 \<and>
      undo_times (length many_transactions) s1 = Inr s2 \<and> CURSOR s2 = 0)"
proof -
  have h: "list_all recording_transaction many_transactions"
    by (simp add: many_transactions_def recording_transaction_def plain_context_def
          list_all_length)
  have "HISTORY_SIZE < length many_transactions"
    by (simp add: many_transactions_def HISTORY_SIZE_def)
  with undo_all_returns_to_start [OF h] h show ?thesis by blast
qed

subsection \<open>What redo submits\<close>

lemma split_on_no_separator: "c \<notin> set xs \<Longrightarrow> split_on c xs = [xs]"
  by (induction xs) auto

lemma split_on_first:
  "c \<notin> set d \<Longrightarrow> split_on c (d @ c # r) = d # split_on c r"
  by (induction d) auto

lemma split_key:
  assumes "CHR ''.'' \<notin> set d" "CHR ''.'' \<notin> set r"
  shows "split_on CHR ''.'' (d @ ''.'' @ r) = [d, r]"
  using split_on_first [OF assms(1), of r] split_on_no_separator [OF assms(2)] by simp

lemma split_on_not_Nil: "split_on c x \<noteq> []"
  by (induction x) (auto split: list.splits)

lemma split_on_two_parts: "\<exists>t r ps. split_on c (d @ c # x) = t # r # ps"
proof (induction d)
  case Nil
  show ?case using split_on_not_Nil [of c x] by (cases "split_on c x") auto
next
  case (Cons a d)
  then show ?case by auto
qed

lemma op_of_resurrection_message:
  assumes "CHR ''.'' \<notin> set d" "CHR ''.'' \<notin> set r"
  shows "op_of (resurrection_message (d @ ''.'' @ r) ts) = (d, r, ''tombstone'', JNum 0)"
  using split_key [OF assms] by (simp add: resurrection_message_def op_of_def)

lemma op_of_resurrection_messages:
  "map op_of (fst (resurrection_messages descs clk)) =
     map (\<lambda>desc. op_of (resurrection_message desc 0)) descs"
proof (induction descs arbitrary: clk)
  case Nil
  then show ?case by simp
next
  case (Cons desc descs)
  have "op_of (resurrection_message desc ts) = op_of (resurrection_message desc 0)" for ts
    by (simp add: resurrection_message_def op_of_def Let_def)
  with Cons.IH [of "Suc clk"] show ?case
    by (cases "resurrection_messages descs (Suc clk)") (simp add: Timestamp_send_def)
qed

lemma set_first_occurrences [simp]: "set (first_occurrences xs) = set xs"
  by (induction xs) auto

lemma distinct_first_occurrences: "distinct (first_occurrences xs)"
  by (induction xs) (auto simp: distinct_removeAll)

lemma first_occurrences_filter:
  "first_occurrences (filter P xs) = filter P (first_occurrences xs)"
proof (induction xs)
  case Nil
  then show ?case by simp
next
  case (Cons x xs)
  show ?case
  proof (cases "P x")
    case True
    with Cons show ?thesis by (simp add: removeAll_filter_not_eq conj_commute)
  next
    case False
    then have "filter P (removeAll x ys) = filter P ys" for ys
      by (induction ys) auto
    with False Cons show ?thesis by simp
  qed
qed

lemma first_occurrences_map:
  "inj_on f (set xs) \<Longrightarrow> first_occurrences (map f xs) = map f (first_occurrences xs)"
proof (induction xs)
  case Nil
  then show ?case by simp
next
  case (Cons x xs)
  then have inj: "inj_on f (set xs)" by simp
  have "removeAll (f x) (map f ys) = map f (removeAll x ys)" if "set ys \<subseteq> set xs" for ys
    using that
  proof (induction ys)
    case Nil
    then show ?case by simp
  next
    case (Cons y ys)
    with \<open>inj_on f (set (x # xs))\<close> have "f y = f x \<longleftrightarrow> y = x"
      by (auto simp: inj_on_def)
    with Cons show ?case by auto
  qed
  from this [of "first_occurrences xs"] Cons.IH [OF inj] show ?case by simp
qed

lemma resurrect_keys_Cons:
  "resurrect_keys (m # ms) old acc =
     resurrect_keys ms old
       (if resurrectable old m
        then (if dataset m @ ''.'' @ row m \<in> set acc then acc
              else acc @ [dataset m @ ''.'' @ row m])
        else acc)"
  by (simp add: resurrectable_def Let_def)

lemma resurrect_keys_eq:
  "resurrect_keys ms old acc =
     acc @ first_occurrences
             (filter (\<lambda>k. k \<notin> set acc)
                (map (\<lambda>m. dataset m @ ''.'' @ row m) (filter (resurrectable old) ms)))"
proof (induction ms arbitrary: acc)
  case Nil
  then show ?case by simp
next
  case (Cons m ms)
  define K where "K = map (\<lambda>m. dataset m @ ''.'' @ row m) (filter (resurrectable old) ms)"
  define k where "k = dataset m @ ''.'' @ row m"
  have ih: "resurrect_keys ms old acc' =
              acc' @ first_occurrences (filter (\<lambda>k. k \<notin> set acc') K)" for acc'
    using Cons.IH [of acc'] by (simp add: K_def)
  have Km: "map (\<lambda>m. dataset m @ ''.'' @ row m) (filter (resurrectable old) (m # ms)) =
              (if resurrectable old m then k # K else K)"
    by (simp add: K_def k_def)
  have step: "resurrect_keys (m # ms) old acc =
                resurrect_keys ms old
                  (if resurrectable old m then (if k \<in> set acc then acc else acc @ [k])
                   else acc)"
    unfolding k_def by (rule resurrect_keys_Cons)
  show ?case
  proof (cases "resurrectable old m")
    case False
    then show ?thesis unfolding Km step by (simp add: ih)
  next
    case True
    show ?thesis
    proof (cases "k \<in> set acc")
      case in_acc: True
      with True show ?thesis unfolding Km step by (simp add: ih)
    next
      case False
      have "filter (\<lambda>x. x \<notin> set (acc @ [k])) K =
              filter (\<lambda>x. k \<noteq> x) (filter (\<lambda>x. x \<notin> set acc) K)"
        by (auto intro: filter_cong)
      then have "first_occurrences (filter (\<lambda>x. x \<notin> set (acc @ [k])) K) =
              removeAll k (first_occurrences (filter (\<lambda>x. x \<notin> set acc) K))"
        by (simp only: first_occurrences_filter removeAll_filter_not_eq)
      with True False show ?thesis unfolding Km step by (simp add: ih del: set_append)
    qed
  qed
qed

lemma redoResurrections_ops:
  assumes "list_all (\<lambda>m. CHR ''.'' \<notin> set (dataset m) \<and> CHR ''.'' \<notin> set (row m)) ms"
  shows "map op_of (fst (redoResurrections ms old clk)) =
           map (\<lambda>(d, r). (d, r, ''tombstone'', JNum 0))
             (first_occurrences
                (map (\<lambda>m. (dataset m, row m)) (filter (resurrectable old) ms)))"
proof -
  define P where "P = map (\<lambda>m. (dataset m, row m)) (filter (resurrectable old) ms)"
  define key where "key = (\<lambda>(d, r). d @ ''.'' @ (r::string))"
  have free: "CHR ''.'' \<notin> set d \<and> CHR ''.'' \<notin> set r" if "(d, r) \<in> set P" for d r
    using that assms by (auto simp: P_def list_all_iff)
  have inj: "inj_on key (set P)"
  proof (rule inj_onI)
    fix p q assume p: "p \<in> set P" and q: "q \<in> set P" and e: "key p = key q"
    obtain d r where pp: "p = (d, r)" by (cases p)
    obtain d' r' where qq: "q = (d', r')" by (cases q)
    from p pp free have fp: "CHR ''.'' \<notin> set d" "CHR ''.'' \<notin> set r" by blast+
    from q qq free have fq: "CHR ''.'' \<notin> set d'" "CHR ''.'' \<notin> set r'" by blast+
    have kp: "key p = d @ ''.'' @ r" unfolding key_def pp by (rule prod.case)
    have kq: "key q = d' @ ''.'' @ r'" unfolding key_def qq by (rule prod.case)
    have sp: "split_on CHR ''.'' (key p) = [d, r]" unfolding kp using fp by (rule split_key)
    have sq: "split_on CHR ''.'' (key q) = [d', r']" unfolding kq using fq by (rule split_key)
    have "[d, r] = split_on CHR ''.'' (key p)" by (rule sp [symmetric])
    also have "\<dots> = split_on CHR ''.'' (key q)" by (rule arg_cong [OF e])
    also have "\<dots> = [d', r']" by (rule sq)
    finally have "d = d' \<and> r = r'" by blast
    then show "p = q" unfolding pp qq by blast
  qed
  have keys: "map (\<lambda>m. dataset m @ ''.'' @ row m) (filter (resurrectable old) ms) = map key P"
    by (simp add: P_def key_def)
  have "resurrect_keys ms old [] = map key (first_occurrences P)"
    using resurrect_keys_eq [of ms old "[]"] first_occurrences_map [OF inj]
    unfolding keys by simp
  then have "map op_of (fst (redoResurrections ms old clk)) =
               map (\<lambda>p. op_of (resurrection_message (key p) 0)) (first_occurrences P)"
    by (simp add: redoResurrections_def op_of_resurrection_messages o_def)
  also have "\<dots> = map (\<lambda>(d, r). (d, r, ''tombstone'', JNum 0)) (first_occurrences P)"
  proof (rule map_cong [OF refl])
    fix p assume "p \<in> set (first_occurrences P)"
    then have p: "p \<in> set P" by simp
    obtain d r where pp: "p = (d, r)" by (cases p)
    with p free have "CHR ''.'' \<notin> set d" "CHR ''.'' \<notin> set r" by auto
    then have "op_of (resurrection_message (d @ ''.'' @ r) 0) = (d, r, ''tombstone'', JNum 0)"
      by (rule op_of_resurrection_message)
    moreover have "key p = d @ ''.'' @ r" unfolding key_def pp by (rule prod.case)
    ultimately show "op_of (resurrection_message (key p) 0) =
            (case p of (d, r) \<Rightarrow> (d, r, ''tombstone'', JNum 0))"
      unfolding pp by (simp only: prod.case)
  qed
  finally show ?thesis by (simp add: P_def)
qed

lemma redo_reduce_ops:
  assumes "list_all dot_free entries"
  shows "map op_of (fst (redo_reduce entries acc clk)) =
           map op_of acc @
           concat (map (\<lambda>e. map op_of (entry_messages e) @ tombstone_clears e) entries)"
  using assms
proof (induction entries arbitrary: acc clk)
  case Nil
  then show ?case by simp
next
  case (Cons e entries)
  obtain res clk1 where r: "redoResurrections (entry_messages e) (entry_oldData e) clk = (res, clk1)"
    by (cases "redoResurrections (entry_messages e) (entry_oldData e) clk")
  from Cons.prems have d: "dot_free e" and rest: "list_all dot_free entries" by simp_all
  from d have "map op_of (fst (redoResurrections (entry_messages e) (entry_oldData e) clk)) =
                 tombstone_clears e"
    unfolding dot_free_def tombstone_clears_def by (rule redoResurrections_ops)
  with r have "map op_of res = tombstone_clears e" by simp
  with Cons.IH [OF rest, of "(acc @ entry_messages e) @ res" clk1] r show ?case by simp
qed

lemma redo_some:
  assumes "redo s = Inr (s', Some a)"
  shows "filter is_messages
           (drop (CURSOR s + 1) (take (CURSOR s' + 1) (MESSAGE_HISTORY s))) \<noteq> [] \<and>
         ev_messages a =
           fst (redo_reduce
                  (filter is_messages
                     (drop (CURSOR s + 1) (take (CURSOR s' + 1) (MESSAGE_HISTORY s))))
                  [] (clock s)) \<and>
         sent a =
           fst (stamp_messages (ev_messages a)
                  (snd (redo_reduce
                          (filter is_messages
                             (drop (CURSOR s + 1) (take (CURSOR s' + 1) (MESSAGE_HISTORY s))))
                          [] (clock s))))"
  using assms
  by (auto simp: redo_def Let_def applyUndoAction_def
           split: sum.splits if_splits prod.splits)

lemma redo_before_batch:
  assumes "CURSOR s + 1 < length (MESSAGE_HISTORY s)"
    and "is_messages (MESSAGE_HISTORY s ! (CURSOR s + 1))"
  shows "\<exists>s' a. redo s = Inr (s', Some a)"
proof -
  define h where "h = MESSAGE_HISTORY s"
  define c where "c = CURSOR s"
  define e where "e = walk_forward h (min (c + 1) (length h - 1))"
  from assms have c1: "c + 1 < length h" and b: "is_messages (h ! (c + 1))"
    by (simp_all add: h_def c_def)
  then have m: "min (c + 1) (length h - 1) = c + 1" by simp
  have ge: "c + 1 \<le> e" unfolding e_def m by (rule walk_forward_ge)
  have lt: "e < length h" unfolding e_def m using c1 by (rule walk_forward_bound)
  have "drop (c + 1) (take (e + 1) h) ! 0 = h ! (c + 1)" using ge lt by simp
  moreover have "0 < length (drop (c + 1) (take (e + 1) h))" using ge lt by simp
  ultimately have "h ! (c + 1) \<in> set (drop (c + 1) (take (e + 1) h))" by (metis nth_mem)
  with b have ne: "filter is_messages (drop (c + 1) (take (e + 1) h)) \<noteq> []"
    by (auto simp: filter_empty_conv)
  from c1 have "c < length h" by simp
  with ne show ?thesis
    unfolding redo_def Let_def h_def [symmetric] c_def [symmetric] e_def [symmetric]
    by (auto split: prod.splits)
qed

text \<open>
  C3, as stated, fails: the tombstone-clears are built and appended batch by batch, so
  with two batches collected the clear for the row of the first stands before the replayed
  message of the second.
\<close>

theorem resurrection_before_original_counterexample:
  "map_sum id (\<lambda>(s', a). map_option (\<lambda>a. map op_of (sent a)) a) (redo two_batch_log_undone) =
     Inr (Some two_batch_redo_ops) \<and>
   two_batch_redo_ops ! 2 = (''payees'', ''r2'', ''tombstone'', JNum 0) \<and>
   two_batch_redo_ops ! 3 = op_of payee_r3"
  by code_simp

text \<open>
  The keys of the set are split at every dot: a row name holding one is cut at it, which
  is why the property below is stated for names without dots.
\<close>

lemma dotted_row_is_cut:
  "map op_of (fst (redoResurrections [payee_r2\<lparr>row := ''a.b''\<rparr>] [] 0)) =
     [(''payees'', ''a'', ''tombstone'', JNum 0)]"
  by code_simp

text \<open>
  C3, amended: when \<^verbatim>\<open>redo\<close> collects a batch (and it does whenever the entry after
  the cursor is one), the batches collected are those after the old cursor up to the new
  one, and, their dataset and row names holding no dot, the list submitted is, batch after
  batch in the order of the log, the messages of the batch followed by its
  tombstone-clears: column \<^verbatim>\<open>tombstone\<close> with value 0, one for each pair of dataset and
  row among the messages of that batch whose row has no prior value in the batch's
  snapshot and whose dataset is not one of the six that are never resurrected, at the
  pair's first occurrence.
\<close>

theorem redo_submits_batches_with_resurrections:
  "(redo s = Inr (s', Some a) \<longrightarrow>
      (let collected = filter is_messages
                         (drop (CURSOR s + 1) (take (CURSOR s' + 1) (MESSAGE_HISTORY s)))
       in collected \<noteq> [] \<and>
          (list_all dot_free collected \<longrightarrow>
             map op_of (sent a) =
               concat (map (\<lambda>e. map op_of (entry_messages e) @ tombstone_clears e)
                         collected)))) \<and>
   (CURSOR s + 1 < length (MESSAGE_HISTORY s) \<and>
    is_messages (MESSAGE_HISTORY s ! (CURSOR s + 1)) \<longrightarrow>
      (\<exists>s' a. redo s = Inr (s', Some a)))"
proof (intro conjI impI)
  assume r: "redo s = Inr (s', Some a)"
  define collected where
    "collected = filter is_messages
                   (drop (CURSOR s + 1) (take (CURSOR s' + 1) (MESSAGE_HISTORY s)))"
  define clk where "clk = snd (redo_reduce collected [] (clock s))"
  from redo_some [OF r] have
    ne: "collected \<noteq> []"
    and ev: "ev_messages a = fst (redo_reduce collected [] (clock s))"
    and st: "sent a = fst (stamp_messages (ev_messages a) clk)"
    unfolding collected_def clk_def by blast+
  have "map op_of (sent a) =
          concat (map (\<lambda>e. map op_of (entry_messages e) @ tombstone_clears e) collected)"
    if "list_all dot_free collected"
    unfolding st stamp_messages_ops ev using redo_reduce_ops [OF that, of "[]" "clock s"]
    by simp
  with ne show "let collected = filter is_messages
                         (drop (CURSOR s + 1) (take (CURSOR s' + 1) (MESSAGE_HISTORY s)))
       in collected \<noteq> [] \<and>
          (list_all dot_free collected \<longrightarrow>
             map op_of (sent a) =
               concat (map (\<lambda>e. map op_of (entry_messages e) @ tombstone_clears e)
                         collected))"
    unfolding collected_def [symmetric] by (simp add: Let_def)
next
  assume "CURSOR s + 1 < length (MESSAGE_HISTORY s) \<and>
    is_messages (MESSAGE_HISTORY s ! (CURSOR s + 1))"
  then show "\<exists>s' a. redo s = Inr (s', Some a)" using redo_before_batch by blast
qed

theorem redo_submits_batches_with_resurrections_witness:
  "CURSOR two_batch_log_undone + 1 < length (MESSAGE_HISTORY two_batch_log_undone) \<and>
   is_messages (MESSAGE_HISTORY two_batch_log_undone ! (CURSOR two_batch_log_undone + 1)) \<and>
   (\<exists>s' a. redo two_batch_log_undone = Inr (s', Some a) \<and> CURSOR s' = 2 \<and>
      list_all dot_free
        (filter is_messages (drop 1 (take 3 (MESSAGE_HISTORY two_batch_log_undone)))) \<and>
      map op_of (sent a) = two_batch_redo_ops)"
proof -
  have h: "CURSOR two_batch_log_undone + 1 < length (MESSAGE_HISTORY two_batch_log_undone) \<and>
    is_messages (MESSAGE_HISTORY two_batch_log_undone ! (CURSOR two_batch_log_undone + 1))"
    by (simp add: two_batch_log_undone_def two_batch_log_def)
  with redo_submits_batches_with_resurrections [of two_batch_log_undone]
  obtain s' a where r: "redo two_batch_log_undone = Inr (s', Some a)" by blast
  have "map_sum id (\<lambda>(s', a). CURSOR s') (redo two_batch_log_undone) = Inr 2"
    by code_simp
  with r have c: "CURSOR s' = 2" by simp
  have col: "filter is_messages
               (drop (CURSOR two_batch_log_undone + 1)
                  (take (CURSOR s' + 1) (MESSAGE_HISTORY two_batch_log_undone))) =
             [Messages [payee_r2, mapping_r2] [] (Some ''tag''),
              Messages [payee_r3] [] (Some ''tag'')]"
    unfolding c by (simp add: two_batch_log_undone_def two_batch_log_def)
  have df: "list_all dot_free [Messages [payee_r2, mapping_r2] [] (Some ''tag''),
              Messages [payee_r3] [] (Some ''tag'')]"
    by (simp add: dot_free_def payee_r2_def mapping_r2_def payee_r3_def)
  have ops: "concat (map (\<lambda>e. map op_of (entry_messages e) @ tombstone_clears e)
               [Messages [payee_r2, mapping_r2] [] (Some ''tag''),
                Messages [payee_r3] [] (Some ''tag'')]) = two_batch_redo_ops"
    by code_simp
  from redo_submits_batches_with_resurrections [of two_batch_log_undone s' a] r
  have "map op_of (sent a) = two_batch_redo_ops"
    unfolding col Let_def using df ops by simp
  moreover have "list_all dot_free
        (filter is_messages (drop 1 (take 3 (MESSAGE_HISTORY two_batch_log_undone))))"
    using df by (simp add: two_batch_log_undone_def two_batch_log_def)
  ultimately show ?thesis using h r c by blast
qed

end
